theory Spec2Isabelle
  imports Complex_Main "HOL-Library.Multiset"
begin

section \<open>Shared JavaScript library behaviour\<close>

text \<open>
  The repository is TypeScript running on Node. The few library operations its code leans
  on are written out here: \<open>Array.prototype.join\<close>, \<open>Array.prototype.slice\<close> with one
  argument, \<open>String.prototype.split\<close> on the pattern \<open>/\r?\n/\<close>, and the decimal
  rendering of a non-negative integer inside a template string.
\<close>

definition LF :: char where
  "LF = CHR 0x0A"

definition CR :: char where
  "CR = CHR 0x0D"

fun join :: "string \<Rightarrow> string list \<Rightarrow> string" where
  "join sep [] = []"
| "join sep [x] = x"
| "join sep (x # y # ys) = x @ sep @ join sep (y # ys)"

definition slice_from :: "int \<Rightarrow> 'a list \<Rightarrow> 'a list" where
  \<comment> \<open>\<open>xs.slice(start)\<close>: a negative start counts from the end, clamped at 0.\<close>
  "slice_from start xs =
     (let len = int (length xs);
          k = (if start < 0 then max (len + start) 0 else min start len)
      in drop (nat k) xs)"

fun split_lines_acc :: "string \<Rightarrow> string \<Rightarrow> string list" where
  \<comment> \<open>\<open>s.split(/\r?\n/)\<close>; the accumulator holds the current piece, reversed.\<close>
  "split_lines_acc acc [] = [rev acc]"
| "split_lines_acc acc (c # cs) =
     (if c = LF then rev acc # split_lines_acc [] cs
      else if c = CR \<and> (case cs of [] \<Rightarrow> False | d # _ \<Rightarrow> d = LF)
        then rev acc # split_lines_acc [] (tl cs)
      else split_lines_acc (c # acc) cs)"

definition split_lines :: "string \<Rightarrow> string list" where
  "split_lines s = split_lines_acc [] s"

definition digit_char :: "nat \<Rightarrow> char" where
  "digit_char d = char_of (48 + d)"

fun show_nat :: "nat \<Rightarrow> string" where
  "show_nat n = (if n < 10 then [digit_char n] else show_nat (n div 10) @ [digit_char (n mod 10)])"

section \<open>Data model (types.ts)\<close>

datatype TaskStatus = TaskPending | TaskRunning | TaskDone | TaskFailed | TaskSkipped

datatype RunStatus = Idle | Planning | Executing | Reflecting | Completed | Failed | Paused

datatype LogType = LogInfo | LogTask | LogTool | LogReflection | LogError | LogWarning

datatype MemoryType = MemTask | MemDecision | MemResult | MemGoal

datatype GoalStatus = GoalCompleted | GoalInProgress | GoalFailed

record ReflectionResult =
  success :: bool
  analysis :: string
  shouldRetry :: bool
  adjustments :: "string option"
  confidence :: int

record Task =
  task_id :: nat
  description :: string
  task_status :: TaskStatus
  result :: "string option"
  reflection :: "ReflectionResult option"

record AgentLogEntry =
  log_type :: LogType
  message :: string

record AgentState =
  run_id :: string
  goal :: string
  tasks :: "Task list"
  currentTask :: nat
  log :: "AgentLogEntry list"
  status :: RunStatus
  stepsExecuted :: int
  maxSteps :: real
  autonomous :: bool

record MemoryEntry =
  entry_id :: string
  entry_type :: MemoryType
  content :: string
  entry_context :: "string option"
  timestamp :: string
  goalId :: "string option"

record GoalRecord =
  goal_id :: string
  goal_text :: string
  goal_status :: GoalStatus
  createdAt :: string
  completedAt :: "string option"

record PersistentMemory =
  entries :: "MemoryEntry list"
  goals :: "GoalRecord list"
  lastUpdated :: string

text \<open>
  The two limits of a configuration, \<open>maxSteps\<close> and \<open>maxRetries\<close>, have the TypeScript type
  \<open>number\<close> and reach the engine unchecked, so they need not be integers and may be
  negative. They are real numbers here: any finite JavaScript number. \<open>NaN\<close> and the two
  infinities are left out. The counter \<open>stepsExecuted\<close> starts at 0 and only goes up by one
  at a time, so it is an integer.
\<close>

record AgentConfig =
  cfg_maxSteps :: real
  maxRetries :: real
  autonomousMode :: bool
  reflectionEnabled :: bool

section \<open>Memory ledger (memory.ts)\<close>

text \<open>
  The ledger is one JSON file. Its state is \<open>None\<close> when the file is missing or cannot
  be read or parsed (\<open>loadMemory\<close> then answers with an empty ledger) and \<open>Some m\<close> when it
  holds the document \<open>m\<close>. Writing and re-reading the JSON document is taken to give the
  same document back, and \<open>fs.writeFileSync\<close> is taken to succeed. The wall clock and the
  id generator (\<open>Date.now\<close>, \<open>Math.random\<close>) are inputs of each operation; the clock
  reads inside one call are taken to agree.
\<close>

type_synonym MemFile = "PersistentMemory option"

definition loadMemory :: "string \<Rightarrow> MemFile \<Rightarrow> PersistentMemory" where
  "loadMemory now file =
     (case file of
        Some m \<Rightarrow> m
      | None \<Rightarrow> \<lparr>entries = [], goals = [], lastUpdated = now\<rparr>)"

definition saveMemory :: "string \<Rightarrow> PersistentMemory \<Rightarrow> MemFile" where
  "saveMemory now memory = Some (memory\<lparr>lastUpdated := now\<rparr>)"

definition addMemoryEntry ::
  "string \<Rightarrow> string \<Rightarrow> MemoryType \<Rightarrow> string \<Rightarrow> string option \<Rightarrow> string option \<Rightarrow> MemFile
     \<Rightarrow> MemoryEntry \<times> MemFile" where
  "addMemoryEntry newId now type text ctx gid file =
     (let memory = loadMemory now file;
          entry = \<lparr>entry_id = newId, entry_type = type, content = text, entry_context = ctx,
                   timestamp = now, goalId = gid\<rparr>;
          pushed = entries memory @ [entry];
          kept = (if length pushed > 1000 then slice_from (- 1000) pushed else pushed)
      in (entry, saveMemory now (memory\<lparr>entries := kept\<rparr>)))"

definition addGoal :: "string \<Rightarrow> string \<Rightarrow> string \<Rightarrow> MemFile \<Rightarrow> MemFile" where
  "addGoal now g gid file =
     (let memory = loadMemory now file
      in saveMemory now (memory\<lparr>goals := goals memory @
           [\<lparr>goal_id = gid, goal_text = g, goal_status = GoalInProgress,
             createdAt = now, completedAt = None\<rparr>]\<rparr>))"

fun update_first :: "('a \<Rightarrow> bool) \<Rightarrow> ('a \<Rightarrow> 'a) \<Rightarrow> 'a list \<Rightarrow> 'a list" where
  \<comment> \<open>mutate the element that \<open>Array.prototype.find\<close> returns\<close>
  "update_first p f [] = []"
| "update_first p f (x # xs) = (if p x then f x # xs else x # update_first p f xs)"

definition updateGoalStatus :: "string \<Rightarrow> string \<Rightarrow> GoalStatus \<Rightarrow> MemFile \<Rightarrow> MemFile" where
  "updateGoalStatus now gid st file =
     (let memory = loadMemory now file
      in if list_ex (\<lambda>g. goal_id g = gid) (goals memory)
         then saveMemory now (memory\<lparr>goals :=
                update_first (\<lambda>g. goal_id g = gid)
                  (\<lambda>g. if st = GoalCompleted \<or> st = GoalFailed
                        then g\<lparr>goal_status := st, completedAt := Some now\<rparr>
                        else g\<lparr>goal_status := st\<rparr>)
                  (goals memory)\<rparr>)
         else file)"

definition getUnfinishedGoals :: "string \<Rightarrow> MemFile \<Rightarrow> GoalRecord list" where
  "getUnfinishedGoals now file =
     filter (\<lambda>g. goal_status g = GoalInProgress) (goals (loadMemory now file))"

definition truthy :: "string option \<Rightarrow> bool" where
  \<comment> \<open>an optional string in a JavaScript condition: absent and empty are both false\<close>
  "truthy s = (case s of None \<Rightarrow> False | Some t \<Rightarrow> t \<noteq> [])"

definition getRecentMemory :: "int \<Rightarrow> string option \<Rightarrow> string \<Rightarrow> MemFile \<Rightarrow> MemoryEntry list" where
  "getRecentMemory limit gid now file =
     (let memory = loadMemory now file;
          es = (if truthy gid then filter (\<lambda>e. goalId e = gid) (entries memory)
                else entries memory)
      in slice_from (- limit) es)"

definition type_upper :: "MemoryType \<Rightarrow> string" where
  "type_upper t =
     (case t of MemTask \<Rightarrow> ''TASK'' | MemDecision \<Rightarrow> ''DECISION''
      | MemResult \<Rightarrow> ''RESULT'' | MemGoal \<Rightarrow> ''GOAL'')"

definition formatEntry :: "(string \<Rightarrow> string) \<Rightarrow> MemoryEntry \<Rightarrow> string" where
  \<comment> \<open>the first argument stands for \<open>new Date(ts).toLocaleString()\<close>, which depends on the
     host's locale\<close>
  "formatEntry toLocaleString e =
     ''['' @ type_upper (entry_type e) @ ''] '' @ toLocaleString (timestamp e) @ '': '' @
     content e @
     (if truthy (entry_context e) then '' (Context: '' @ the (entry_context e) @ '')'' else '''')"

definition formatMemoryForPrompt ::
  "(string \<Rightarrow> string) \<Rightarrow> string option \<Rightarrow> string \<Rightarrow> MemFile \<Rightarrow> string" where
  "formatMemoryForPrompt toLocaleString gid now file =
     (let es = getRecentMemory 15 gid now file
      in if length es = 0 then ''No previous memory available.''
         else join [LF] (map (formatEntry toLocaleString) es))"




definition journal :: "MemFile \<Rightarrow> MemoryEntry list" where
  \<comment> \<open>the entries a reader of the ledger sees\<close>
  "journal file = (case file of None \<Rightarrow> [] | Some m \<Rightarrow> entries m)"



section \<open>Tool sandbox (tools.ts)\<close>

text \<open>
  Paths are POSIX paths. \<open>path_resolve base p\<close> is Node's \<open>path.resolve(base, p)\<close> for an
  absolute \<open>base\<close>: an absolute \<open>p\<close> replaces the root, a relative one is joined to it, and
  the result is normalised (empty and \<open>.\<close> segments dropped, \<open>..\<close> removing the segment
  before it and staying at \<open>/\<close> when there is none). \<open>startsWith\<close> is the string prefix
  test of \<open>String.prototype.startsWith\<close>.
\<close>

fun startsWith :: "string \<Rightarrow> string \<Rightarrow> bool" where
  "startsWith s [] = True"
| "startsWith [] (p # ps) = False"
| "startsWith (c # cs) (p # ps) = (c = p \<and> startsWith cs ps)"

fun split_on_acc :: "char \<Rightarrow> string \<Rightarrow> string \<Rightarrow> string list" where
  "split_on_acc sep acc [] = [rev acc]"
| "split_on_acc sep acc (c # cs) =
     (if c = sep then rev acc # split_on_acc sep [] cs else split_on_acc sep (c # acc) cs)"

definition normalize_step :: "string list \<Rightarrow> string \<Rightarrow> string list" where
  "normalize_step segs seg =
     (if seg = [] \<or> seg = ''.'' then segs
      else if seg = ''..'' then butlast segs
      else segs @ [seg])"

definition path_resolve :: "string \<Rightarrow> string \<Rightarrow> string" where
  "path_resolve base p =
     (let joined = (if startsWith p ''/'' then p else base @ ''/'' @ p)
      in ''/'' @ join ''/'' (foldl normalize_step [] (split_on_acc (CHR ''/'') [] joined)))"

definition safeResolve :: "string \<Rightarrow> string \<Rightarrow> string + string" where
  \<comment> \<open>\<open>Inl\<close> is the message of the thrown \<open>Error\<close>\<close>
  "safeResolve WORKSPACE_ROOT relOrAbs =
     (let resolved = path_resolve WORKSPACE_ROOT relOrAbs
      in if \<not> startsWith resolved WORKSPACE_ROOT then Inl ''Path escapes workspace root.''
         else Inr resolved)"

definition inside_workspace :: "string \<Rightarrow> string \<Rightarrow> bool" where
  \<comment> \<open>the directory-wise meaning of ``inside the workspace root'': the root itself or a path
     below it\<close>
  "inside_workspace base p =
     (p = base \<or> startsWith p (if base = ''/'' then base else base @ ''/''))"

text \<open>
  The disk is a map from absolute paths to the bytes of the regular files there and the set
  of the paths that are directories, together with the list of file-system calls made so
  far, oldest first. No path is meant to be both a file and a directory; the operations
  below look at \<open>files\<close> first. Bytes and characters coincide in this model.
\<close>

datatype FsOp = OpStat string | OpExists string | OpReadFile string | OpWriteFile string string

record World =
  files :: "string \<rightharpoonup> string"
  dirs :: "string set"
  trace :: "FsOp list"

definition did :: "FsOp \<Rightarrow> World \<Rightarrow> World" where
  "did op w = w\<lparr>trace := trace w @ [op]\<rparr>"

definition enoent :: "string \<Rightarrow> string" where
  "enoent p = ''ENOENT: no such file or directory, open '' @ [CHR 0x27] @ p @ [CHR 0x27]"

definition eisdir :: string where
  "eisdir = ''EISDIR: illegal operation on a directory, read''"

definition fs_readFile :: "string \<Rightarrow> World \<Rightarrow> (string + string) \<times> World" where
  "fs_readFile p w =
     (case files w p of
        None \<Rightarrow> (Inl (if p \<in> dirs w then eisdir else enoent p), did (OpReadFile p) w)
      | Some bytes \<Rightarrow> (Inr bytes, did (OpReadFile p) w))"

definition fs_writeFile :: "string \<Rightarrow> string \<Rightarrow> World \<Rightarrow> World" where
  \<comment> \<open>on a path that is not a directory: \<open>apply_patch\<close> writes only where it has just read\<close>
  "fs_writeFile p bytes w = did (OpWriteFile p bytes) (w\<lparr>files := (files w)(p \<mapsto> bytes)\<rparr>)"

definition fileExists :: "string \<Rightarrow> World \<Rightarrow> bool \<times> World" where
  \<comment> \<open>\<open>fs.stat\<close> succeeds on a file and on a directory\<close>
  "fileExists p w = (files w p \<noteq> None \<or> p \<in> dirs w, did (OpStat p) w)"

datatype ToolData =
    ReadData string string bool
  | ReadSlice string int int string bool nat
  | PatchData string nat

datatype ToolResult = ToolOk ToolData | ToolFail string string

text \<open>
  \<open>ToolFail code message\<close> is \<open>{ok: false, error: {code, message}}\<close>. The constructors of
  \<open>ToolData\<close> list the fields of the \<open>data\<close> object in source order: \<open>ReadData path content
  truncated\<close>, \<open>ReadSlice path startLine endLine content truncated totalLinesInClip\<close>,
  \<open>PatchData path editsApplied\<close>. A schema violation makes \<open>parseToolArgs\<close> throw; the
  text of zod's issue list is not reproduced and stands as \<open>zod_issues\<close>.
\<close>

definition zod_issues :: string where
  "zod_issues = ''ZodError''"

definition tool_error :: "string \<Rightarrow> ToolResult" where
  \<comment> \<open>the \<open>catch\<close> at the end of \<open>executeTool\<close>\<close>
  "tool_error msg = ToolFail ''TOOL_ERROR'' msg"

record ReadFileRaw =
  rf_path :: string
  rf_startLine :: "int option"
  rf_endLine :: "int option"
  rf_maxBytes :: "int option"

definition opt_ok :: "('a \<Rightarrow> bool) \<Rightarrow> 'a option \<Rightarrow> bool" where
  "opt_ok p x = (case x of None \<Rightarrow> True | Some v \<Rightarrow> p v)"

definition parse_read_file :: "ReadFileRaw \<Rightarrow> string + (string \<times> int option \<times> int option \<times> int)" where
  "parse_read_file r =
     (if length (rf_path r) \<ge> 1 \<and> opt_ok (\<lambda>n. n \<ge> 1) (rf_startLine r) \<and>
         opt_ok (\<lambda>n. n \<ge> 1) (rf_endLine r) \<and>
         opt_ok (\<lambda>n. 1024 \<le> n \<and> n \<le> 2000000) (rf_maxBytes r)
      then Inr (rf_path r, rf_startLine r, rf_endLine r,
                (case rf_maxBytes r of None \<Rightarrow> 250000 | Some n \<Rightarrow> n))
      else Inl zod_issues)"

definition falsy_num :: "int option \<Rightarrow> bool" where
  "falsy_num x = (x = None \<or> x = Some 0)"

definition slice_between :: "int \<Rightarrow> int \<Rightarrow> 'a list \<Rightarrow> 'a list" where
  \<comment> \<open>\<open>xs.slice(a, b)\<close> for \<open>0 \<le> a\<close> and \<open>0 \<le> b\<close>\<close>
  "slice_between a b xs = take (nat (min b (int (length xs))) - nat a) (drop (nat a) xs)"

definition executeTool_read_file :: "string \<Rightarrow> ReadFileRaw \<Rightarrow> World \<Rightarrow> ToolResult \<times> World" where
  "executeTool_read_file WORKSPACE_ROOT rawArgs w =
     (case parse_read_file rawArgs of
        Inl msg \<Rightarrow> (tool_error msg, w)
      | Inr (path, startLine, endLine, maxBytes) \<Rightarrow>
          (case safeResolve WORKSPACE_ROOT path of
             Inl msg \<Rightarrow> (tool_error msg, w)
           | Inr filePath \<Rightarrow>
               (case fs_readFile filePath w of
                  (Inl msg, w') \<Rightarrow> (tool_error msg, w')
                | (Inr buf, w') \<Rightarrow>
                    (let clipped = take (nat maxBytes) buf;
                         text = clipped;
                         truncated = (length buf > length clipped)
                     in if falsy_num startLine \<and> falsy_num endLine
                        then (ToolOk (ReadData path text truncated), w')
                        else
                          (let lines = split_lines text;
                               start = max 1 (case startLine of None \<Rightarrow> 1 | Some n \<Rightarrow> n);
                               end' = min (int (length lines))
                                        (case endLine of None \<Rightarrow> int (length lines) | Some n \<Rightarrow> n);
                               slice = join [LF] (slice_between (start - 1) end' lines)
                           in (ToolOk (ReadSlice path start end' slice truncated (length lines)),
                               w'))))))"

text \<open>The older registry tool \<open>readFileTool\<close> (its console logging left out).\<close>

record ToolOutput =
  out_success :: bool
  out_result :: "string option"
  out_error :: "string option"

definition fs_existsSync :: "string \<Rightarrow> World \<Rightarrow> bool \<times> World" where
  "fs_existsSync p w = (files w p \<noteq> None \<or> p \<in> dirs w, did (OpExists p) w)"

definition readFileTool :: "string \<Rightarrow> string \<Rightarrow> World \<Rightarrow> ToolOutput \<times> World" where
  "readFileTool WORKSPACE_DIR filepath w =
     (let fullPath = path_resolve WORKSPACE_DIR filepath
      in if \<not> startsWith fullPath WORKSPACE_DIR
         then (\<lparr>out_success = False, out_result = None,
                 out_error = Some ''Access denied: Path outside workspace''\<rparr>, w)
         else
           (case fs_existsSync fullPath w of
              (False, w') \<Rightarrow>
                (\<lparr>out_success = False, out_result = None,
                   out_error = Some (''File not found: '' @ filepath)\<rparr>, w')
            | (True, w') \<Rightarrow>
                (case fs_readFile fullPath w' of
                   (Inl msg, w'') \<Rightarrow>
                     (\<lparr>out_success = False, out_result = None, out_error = Some msg\<rparr>, w'')
                 | (Inr text, w'') \<Rightarrow>
                     (\<lparr>out_success = True, out_result = Some text, out_error = None\<rparr>, w''))))"

subsection \<open>apply\_patch\<close>

record Edit =
  startLine :: int
  endLine :: int
  newText :: string

definition show_int :: "int \<Rightarrow> string" where
  "show_int i = (if i < 0 then ''-'' @ show_nat (nat (- i)) else show_nat (nat i))"

definition parse_apply_patch :: "string \<Rightarrow> Edit list \<Rightarrow> string + (string \<times> Edit list)" where
  "parse_apply_patch path edits =
     (if length path \<ge> 1 \<and> length edits \<ge> 1 \<and>
         list_all (\<lambda>e. startLine e \<ge> 1 \<and> endLine e \<ge> 1) edits
      then Inr (path, edits) else Inl zod_issues)"

definition splice :: "nat \<Rightarrow> nat \<Rightarrow> 'a list \<Rightarrow> 'a list \<Rightarrow> 'a list" where
  \<comment> \<open>\<open>lines.splice(start, deleteCount, ...items)\<close> for \<open>start \<le> length lines\<close>\<close>
  "splice start deleteCount items xs = take start xs @ items @ drop (start + deleteCount) xs"

fun patch_loop :: "string \<Rightarrow> string list \<Rightarrow> Edit list \<Rightarrow> ToolResult + string list" where
  "patch_loop path lines [] = Inr lines"
| "patch_loop path lines (e # es) =
     (let startIdx = startLine e - 1; endIdx = endLine e - 1
      in if startIdx < 0 \<or> endIdx < startIdx \<or> endIdx \<ge> int (length lines)
         then Inl (ToolFail ''RANGE_ERROR''
                (''Invalid edit range ['' @ show_int (startLine e) @ '', '' @
                 show_int (endLine e) @ ''] for '' @ path @ '' (lines='' @
                 show_nat (length lines) @ '')''))
         else patch_loop path
                (splice (nat startIdx) (nat (endIdx - startIdx + 1)) (split_lines (newText e))
                   lines) es)"

definition sort_edits :: "Edit list \<Rightarrow> Edit list" where
  \<comment> \<open>\<open>[...edits].sort((a, b) => b.startLine - a.startLine)\<close>: a stable sort, highest
     \<open>startLine\<close> first\<close>
  "sort_edits edits = sort_key (\<lambda>e. - startLine e) edits"

definition executeTool_apply_patch ::
  "string \<Rightarrow> string \<Rightarrow> Edit list \<Rightarrow> World \<Rightarrow> ToolResult \<times> World" where
  "executeTool_apply_patch WORKSPACE_ROOT rawPath rawEdits w =
     (case parse_apply_patch rawPath rawEdits of
        Inl msg \<Rightarrow> (tool_error msg, w)
      | Inr (path, edits0) \<Rightarrow>
          (case safeResolve WORKSPACE_ROOT path of
             Inl msg \<Rightarrow> (tool_error msg, w)
           | Inr filePath \<Rightarrow>
               (case fileExists filePath w of
                  (False, w1) \<Rightarrow> (ToolFail ''NOT_FOUND'' (''File not found: '' @ path), w1)
                | (True, w1) \<Rightarrow>
                    (case fs_readFile filePath w1 of
                       (Inl msg, w2) \<Rightarrow> (tool_error msg, w2)
                     | (Inr original, w2) \<Rightarrow>
                         (let lines = split_lines original;
                              edits = sort_edits edits0
                          in case patch_loop path lines edits of
                               Inl err \<Rightarrow> (err, w2)
                             | Inr lines' \<Rightarrow>
                                 (let updated = join [LF] lines'
                                  in (ToolOk (PatchData path (length edits)),
                                      fs_writeFile filePath updated w2)))))))"

text \<open>
  What C8 compares the code with: the edits applied one at a time, each replacing its own
  line range, taken in descending order of \<open>startLine\<close>.
\<close>

definition apply_edit :: "string list \<Rightarrow> Edit \<Rightarrow> string list" where
  "apply_edit lines e =
     take (nat (startLine e - 1)) lines @ split_lines (newText e) @ drop (nat (endLine e)) lines"

fun insert_descending :: "Edit \<Rightarrow> Edit list \<Rightarrow> Edit list" where
  "insert_descending e [] = [e]"
| "insert_descending e (f # fs) =
     (if startLine e \<ge> startLine f then e # f # fs else f # insert_descending e fs)"

definition descending :: "Edit list \<Rightarrow> Edit list" where
  "descending es = foldr insert_descending es []"

definition apply_descending :: "string list \<Rightarrow> Edit list \<Rightarrow> string list" where
  "apply_descending lines es = foldl apply_edit lines (descending es)"

definition in_range :: "string list \<Rightarrow> Edit \<Rightarrow> bool" where
  "in_range lines e =
     (1 \<le> startLine e \<and> startLine e \<le> endLine e \<and> endLine e \<le> int (length lines))"

definition overlaps :: "Edit \<Rightarrow> Edit \<Rightarrow> bool" where
  "overlaps e f = (startLine e \<le> endLine f \<and> startLine f \<le> endLine e)"

fun pairwise_disjoint :: "Edit list \<Rightarrow> bool" where
  "pairwise_disjoint [] = True"
| "pairwise_disjoint (e # es) = (list_all (\<lambda>f. \<not> overlaps e f) es \<and> pairwise_disjoint es)"

section \<open>Engine (engine.ts)\<close>

text \<open>
  The engine talks to the language model, the clock and the random id generator. What they
  answer in one run is the run's \<open>Host\<close>:
  \<^item> \<open>generatedId\<close>: what \<open>generateId()\<close> returns when \<open>runAgent\<close> gets no \<open>forcedId\<close>;
  \<^item> \<open>planResponse\<close>: the model's answer to the planning prompt (\<open>Inr\<close>), or the message of
    the error \<open>callLLM\<close> throws (\<open>Inl\<close>);
  \<^item> \<open>executor i k\<close>: what \<open>executeTaskWithTools\<close> meets on task index \<open>i\<close> at attempt \<open>k\<close>
    (the value of \<open>retries\<close> at the call): \<open>ExecThrows msg\<close> when \<open>callLLM\<close> throws,
    \<open>ExecDirect text\<close> when the answer names no tool (or its parameters do not parse) and
    \<open>text\<close> is returned, and \<open>ExecTool name ok summary detail\<close> when the tool \<open>name\<close> ran
    with \<open>success = ok\<close>, \<open>summary\<close> being the JSON text put in the memory entry and
    \<open>detail\<close> the text put in the returned string;
  \<^item> \<open>reflectResponse i k\<close>: the model's answer to the reflection prompt, or the thrown
    error's message;
  \<^item> \<open>JSON_parse\<close>: \<open>JSON.parse\<close> on the matched text, read as a \<open>ReflectionResult\<close>
    (flags by their truthiness); \<open>None\<close> when it throws;
  \<^item> \<open>clock\<close> and \<open>newIds\<close>: the timestamp and the fresh id of the n-th ledger write;
  \<^item> \<open>numberToString\<close>: the text of a number in a template string, asked only for numbers
    that are not integers below \<open>10\<^sup>2\<^sup>1\<close> in absolute value.

  The run's timestamps (\<open>createdAt\<close>, \<open>updatedAt\<close>, \<open>startedAt\<close>, \<open>completedAt\<close>, and the
  one on each log entry) and the \<open>data\<close> attached to a log entry are left out. \<open>emitted\<close>
  lists the snapshots passed to \<open>onUpdate\<close>, oldest first.
\<close>

datatype ExecOutcome = ExecThrows string | ExecDirect string | ExecTool string bool string string

record Host =
  generatedId :: string
  planResponse :: "string + string"
  executor :: "nat \<Rightarrow> nat \<Rightarrow> ExecOutcome"
  reflectResponse :: "nat \<Rightarrow> nat \<Rightarrow> string + string"
  JSON_parse :: "string \<Rightarrow> ReflectionResult option"
  clock :: "nat \<Rightarrow> string"
  newIds :: "nat \<Rightarrow> string"
  numberToString :: "real \<Rightarrow> string"

record Machine =
  state :: AgentState
  emitted :: "AgentState list"
  memory :: MemFile
  ticks :: nat

definition show_number :: "Host \<Rightarrow> real \<Rightarrow> string" where
  "show_number h x =
     (if x = of_int \<lfloor>x\<rfloor> \<and> \<bar>x\<bar> < 10 ^ 21 then show_int \<lfloor>x\<rfloor> else numberToString h x)"

record PartialConfig =
  opt_maxSteps :: "real option"
  opt_maxRetries :: "real option"
  opt_autonomousMode :: "bool option"
  opt_reflectionEnabled :: "bool option"

definition DEFAULT_CONFIG :: AgentConfig where
  "DEFAULT_CONFIG =
     \<lparr>cfg_maxSteps = 50, maxRetries = 3, autonomousMode = False, reflectionEnabled = True\<rparr>"

definition finalConfig :: "PartialConfig \<Rightarrow> AgentConfig" where
  \<comment> \<open>\<open>{ ...DEFAULT_CONFIG, ...config }\<close>\<close>
  "finalConfig config =
     \<lparr>cfg_maxSteps = (case opt_maxSteps config of None \<Rightarrow> cfg_maxSteps DEFAULT_CONFIG | Some v \<Rightarrow> v),
      maxRetries = (case opt_maxRetries config of None \<Rightarrow> maxRetries DEFAULT_CONFIG | Some v \<Rightarrow> v),
      autonomousMode =
        (case opt_autonomousMode config of None \<Rightarrow> autonomousMode DEFAULT_CONFIG | Some v \<Rightarrow> v),
      reflectionEnabled =
        (case opt_reflectionEnabled config of None \<Rightarrow> reflectionEnabled DEFAULT_CONFIG
         | Some v \<Rightarrow> v)\<rparr>"

definition log_entry :: "LogType \<Rightarrow> string \<Rightarrow> Machine \<Rightarrow> Machine" where
  \<comment> \<open>the function \<open>log\<close>\<close>
  "log_entry type msg m =
     m\<lparr>state := (state m)\<lparr>log := log (state m) @ [\<lparr>log_type = type, message = msg\<rparr>]\<rparr>\<rparr>"

definition emit :: "Machine \<Rightarrow> Machine" where
  "emit m = m\<lparr>emitted := emitted m @ [state m]\<rparr>"

definition set_status :: "RunStatus \<Rightarrow> Machine \<Rightarrow> Machine" where
  "set_status st m = m\<lparr>state := (state m)\<lparr>status := st\<rparr>\<rparr>"

definition update_task :: "nat \<Rightarrow> (Task \<Rightarrow> Task) \<Rightarrow> Machine \<Rightarrow> Machine" where
  \<comment> \<open>a write through \<open>task = state.tasks[i]\<close>; the loop keeps \<open>i\<close> below the length\<close>
  "update_task i f m =
     m\<lparr>state := (state m)\<lparr>tasks := (tasks (state m))[i := f (tasks (state m) ! i)]\<rparr>\<rparr>"

definition remember ::
  "Host \<Rightarrow> MemoryType \<Rightarrow> string \<Rightarrow> string option \<Rightarrow> string option \<Rightarrow> Machine \<Rightarrow> Machine" where
  \<comment> \<open>a call of \<open>addMemoryEntry\<close> from the engine\<close>
  "remember h type text ctx gid m =
     m\<lparr>memory := snd (addMemoryEntry (newIds h (ticks m)) (clock h (ticks m)) type text ctx gid
                       (memory m)),
       ticks := ticks m + 1\<rparr>"

definition is_digit :: "char \<Rightarrow> bool" where
  "is_digit c = (c \<in> set ''0123456789'')"

definition is_space :: "char \<Rightarrow> bool" where
  \<comment> \<open>the characters of \<open>\s\<close> and of \<open>trim\<close> among the first 256 code points\<close>
  "is_space c = (c = CHR 0x09 \<or> c = CHR 0x0A \<or> c = CHR 0x0B \<or> c = CHR 0x0C \<or> c = CHR 0x0D \<or>
                 c = CHR 0x20 \<or> c = CHR 0xA0)"

definition trim :: "string \<Rightarrow> string" where
  "trim s = rev (dropWhile is_space (rev (dropWhile is_space s)))"

definition strip_marker :: "string \<Rightarrow> string" where
  \<comment> \<open>\<open>line.replace(/^\d+[\).\s]*/, "")\<close> on a line that starts with a digit\<close>
  "strip_marker line =
     dropWhile (\<lambda>c. c = CHR '')'' \<or> c = CHR ''.'' \<or> is_space c) (dropWhile is_digit line)"

definition planTasks :: "string \<Rightarrow> Task list" where
  \<comment> \<open>the parsing half of \<open>planTasks\<close>, applied to the model's answer\<close>
  "planTasks plan =
     map (\<lambda>(i, line). \<lparr>task_id = i + 1, description = trim (strip_marker line),
                        task_status = TaskPending, result = None, reflection = None\<rparr>)
       (enumerate 0 (filter (\<lambda>l. case l of [] \<Rightarrow> False | c # _ \<Rightarrow> is_digit c)
                       (split_on_acc LF [] plan)))"

definition executeTaskWithTools ::
  "Host \<Rightarrow> nat \<Rightarrow> nat \<Rightarrow> Machine \<Rightarrow> (string + string) \<times> Machine" where
  "executeTaskWithTools h i attempt m =
     (case executor h i attempt of
        ExecThrows msg \<Rightarrow> (Inl msg, m)
      | ExecDirect response \<Rightarrow> (Inr response, m)
      | ExecTool toolName ok summary detail \<Rightarrow>
          (Inr (if ok then ''Tool '' @ toolName @ '' succeeded: '' @ detail
                else ''Tool '' @ toolName @ '' failed: '' @ detail),
           remember h MemResult
             (''Tool '' @ toolName @ '': '' @ (if ok then ''Success'' else ''Failed'') @ '' - '' @
              summary)
             (Some (description (tasks (state m) ! i))) (Some (run_id (state m)))
             (log_entry LogTool (''Using tool: '' @ toolName) m)))"

definition brace_match :: "string \<Rightarrow> string option" where
  \<comment> \<open>\<open>response.match(/\{[\s\S]*\}/)\<close>: from the first opening brace to the last closing
     brace after it\<close>
  "brace_match response =
     (let from_open = dropWhile (\<lambda>c. c \<noteq> CHR ''{'') response;
          to_close = rev (dropWhile (\<lambda>c. c \<noteq> CHR ''}'') (rev from_open))
      in if to_close = [] then None else Some to_close)"

definition default_reflection :: ReflectionResult where
  "default_reflection =
     \<lparr>success = True, analysis = ''Reflection parsing failed, assuming success'',
      shouldRetry = False, adjustments = None, confidence = 50\<rparr>"

definition reflectOnTask :: "Host \<Rightarrow> nat \<Rightarrow> string \<Rightarrow> Machine \<Rightarrow> ReflectionResult \<times> Machine" where
  \<comment> \<open>the part of \<open>reflectOnTask\<close> after \<open>callLLM\<close> has returned \<open>response\<close>\<close>
  "reflectOnTask h i response m =
     (case brace_match response of
        None \<Rightarrow> (default_reflection, m)
      | Some jsonText \<Rightarrow>
          (case JSON_parse h jsonText of
             None \<Rightarrow> (default_reflection, m)
           | Some r \<Rightarrow>
               (r, remember h MemDecision
                     (''Task '' @ [CHR 0x22] @ description (tasks (state m) ! i) @ [CHR 0x22] @
                      '': '' @ (if success r then ''Success'' else ''Failed'') @
                      '' (confidence: '' @ show_int (confidence r) @ ''%)'')
                     (Some (analysis r)) (Some (run_id (state m))) m)))"

definition catch_block :: "AgentConfig \<Rightarrow> nat \<Rightarrow> nat \<Rightarrow> string \<Rightarrow> Machine \<Rightarrow> Machine" where
  \<comment> \<open>the \<open>catch\<close> of the retry loop; \<open>retries\<close> is the value after \<open>retries++\<close>\<close>
  "catch_block cfg i retries msg m =
     (let m1 = log_entry LogError
                 (''Error executing task '' @ show_nat (task_id (tasks (state m) ! i)) @ '': '' @ msg)
                 m
      in if real retries > maxRetries cfg
         then update_task i
                (\<lambda>t. t\<lparr>task_status := TaskFailed,
                        result := Some (''Failed after '' @ show_nat retries @ '' attempts: '' @ msg)\<rparr>)
                m1
         else m1)"

text \<open>
  One pass through the body of the retry loop. \<open>Break\<close> is the \<open>break\<close> statement;
  \<open>Again\<close> is reached by \<open>continue\<close> and by the \<open>catch\<close> block, both after
  \<open>retries++\<close>. Each carries the local \<open>result\<close> and the machine.
\<close>

datatype Pass = Break string Machine | Again string Machine

definition after_execute :: "nat \<Rightarrow> string \<Rightarrow> Machine \<Rightarrow> Machine" where
  \<comment> \<open>\<open>state.stepsExecuted++\<close>, the log line and the \<open>emit\<close> that follow a returned result\<close>
  "after_execute i res' m1 =
     emit (log_entry LogTask
             (''Task '' @ show_nat (task_id (tasks (state m1) ! i)) @ '' result: '' @
              take 200 res' @ ''...'')
             (m1\<lparr>state := (state m1)\<lparr>stepsExecuted := stepsExecuted (state m1) + 1\<rparr>\<rparr>))"

definition judge ::
  "AgentConfig \<Rightarrow> nat \<Rightarrow> nat \<Rightarrow> string \<Rightarrow> ReflectionResult \<Rightarrow> Machine \<Rightarrow> Pass" where
  \<comment> \<open>from \<open>task.reflection = reflection\<close> to the \<open>break\<close> or \<open>continue\<close>\<close>
  "judge cfg i retries res' r m4 =
     (let m5 = emit (log_entry LogReflection
                 (''Reflection: '' @ analysis r @ '' (confidence: '' @
                  show_int (confidence r) @ ''%)'')
                 (update_task i (\<lambda>t. t\<lparr>reflection := Some r\<rparr>) m4))
      in if shouldRetry r \<and> real retries < maxRetries cfg then
           Again res'
             (log_entry LogWarning
                (''Retrying task '' @ show_nat (task_id (tasks (state m5) ! i)) @
                 '' based on reflection'') m5)
         else
           Break res'
             (update_task i
                (\<lambda>t. t\<lparr>task_status := (if success r then TaskDone else TaskFailed)\<rparr>) m5))"

definition reflect_stage ::
  "AgentConfig \<Rightarrow> Host \<Rightarrow> nat \<Rightarrow> nat \<Rightarrow> string \<Rightarrow> Machine \<Rightarrow> Pass" where
  \<comment> \<open>the branch \<open>if (finalConfig.reflectionEnabled)\<close>\<close>
  "reflect_stage cfg h i retries res' m2 =
     (let m3 = emit (set_status Reflecting m2)
      in case reflectResponse h i retries of
           Inl msg \<Rightarrow> Again res' (catch_block cfg i (retries + 1) msg m3)
         | Inr response \<Rightarrow>
             (case reflectOnTask h i response m3 of
                (r, m4) \<Rightarrow> judge cfg i retries res' r m4))"

definition attempt ::
  "AgentConfig \<Rightarrow> Host \<Rightarrow> nat \<Rightarrow> nat \<Rightarrow> string \<Rightarrow> Machine \<Rightarrow> Pass" where
  "attempt cfg h i retries res m =
     (case executeTaskWithTools h i retries m of
        (Inl msg, m1) \<Rightarrow> Again res (catch_block cfg i (retries + 1) msg m1)
      | (Inr res', m1) \<Rightarrow>
          (let m2 = after_execute i res' m1
           in if reflectionEnabled cfg then reflect_stage cfg h i retries res' m2
              else Break res' (update_task i (\<lambda>t. t\<lparr>task_status := TaskDone\<rparr>) m2)))"

function retry_loop ::
  "AgentConfig \<Rightarrow> Host \<Rightarrow> nat \<Rightarrow> nat \<Rightarrow> string \<Rightarrow> Machine \<Rightarrow> string \<times> Machine" where
  "retry_loop cfg h i retries res m =
     (if real retries \<le> maxRetries cfg then
        (case attempt cfg h i retries res m of
           Break res' m' \<Rightarrow> (res', m')
         | Again res' m' \<Rightarrow> retry_loop cfg h i (retries + 1) res' m')
      else (res, m))"
  by pat_completeness auto
termination
  by (relation
      "measure (\<lambda>(cfg, h, i, retries, res, m). nat (\<lfloor>maxRetries cfg\<rfloor> + 1 - int retries))")
    (auto simp: le_floor_iff)

definition start_task :: "nat \<Rightarrow> Machine \<Rightarrow> Machine" where
  \<comment> \<open>the statements between the budget check and the retry loop\<close>
  "start_task i m =
     emit (log_entry LogTask
             (''Starting task '' @ show_nat (task_id (tasks (state m) ! i)) @ '': '' @
              description (tasks (state m) ! i))
             (set_status Executing
                (update_task i (\<lambda>t. t\<lparr>task_status := TaskRunning\<rparr>)
                   (m\<lparr>state := (state m)\<lparr>currentTask := i + 1\<rparr>\<rparr>))))"

definition complete_task :: "Host \<Rightarrow> nat \<Rightarrow> string \<Rightarrow> Machine \<Rightarrow> Machine" where
  \<comment> \<open>the statements after the retry loop, up to the \<open>emit\<close>\<close>
  "complete_task h i res m =
     emit (remember h MemTask
             (''Completed: '' @ description (tasks (state m) ! i))
             (Some (take 500 res)) (Some (run_id (state m)))
             (update_task i (\<lambda>t. t\<lparr>result := Some res\<rparr>) m))"

definition run_task :: "AgentConfig \<Rightarrow> Host \<Rightarrow> nat \<Rightarrow> Machine \<Rightarrow> Machine" where
  "run_task cfg h i m =
     (case retry_loop cfg h i 0 [] (start_task i m) of (res, m2) \<Rightarrow> complete_task h i res m2)"

fun task_loop :: "AgentConfig \<Rightarrow> Host \<Rightarrow> nat list \<Rightarrow> Machine \<Rightarrow> Machine" where
  \<comment> \<open>the \<open>for\<close> loop over the task indices still to visit\<close>
  "task_loop cfg h [] m = m"
| "task_loop cfg h (i # rest) m =
     (if real_of_int (stepsExecuted (state m)) \<ge> maxSteps (state m) then
        set_status Paused
          (log_entry LogWarning
             (''Maximum steps ('' @ show_number h (maxSteps (state m)) @
              '') reached. Stopping execution.'') m)
      else
        (let m3 = run_task cfg h i m
         in if task_status (tasks (state m3) ! i) = TaskFailed \<and> \<not> autonomousMode cfg
            then set_status Failed
                   (log_entry LogError
                      (''Task '' @ show_nat (task_id (tasks (state m3) ! i)) @
                       '' failed. Stopping non-autonomous execution.'') m3)
            else task_loop cfg h rest m3))"

definition with_memory :: "(string \<Rightarrow> MemFile \<Rightarrow> MemFile) \<Rightarrow> Host \<Rightarrow> Machine \<Rightarrow> Machine" where
  \<comment> \<open>a ledger operation of the engine, stamped by the host's clock\<close>
  "with_memory f h m = m\<lparr>memory := f (clock h (ticks m)) (memory m), ticks := ticks m + 1\<rparr>"

definition finish :: "Host \<Rightarrow> Machine \<Rightarrow> Machine" where
  \<comment> \<open>the verdict after the task loop\<close>
  "finish h m =
     (let allDone = list_all (\<lambda>t. task_status t = TaskDone) (tasks (state m));
          anyFailed = list_ex (\<lambda>t. task_status t = TaskFailed) (tasks (state m))
      in if allDone then
           log_entry LogInfo ''All tasks completed successfully!''
             (with_memory (\<lambda>now. updateGoalStatus now (run_id (state m)) GoalCompleted) h
                (set_status Completed m))
         else if anyFailed then
           log_entry LogError ''Some tasks failed.''
             (with_memory (\<lambda>now. updateGoalStatus now (run_id (state m)) GoalFailed) h
                (set_status Failed m))
         else m)"

definition runAgent :: "Host \<Rightarrow> string \<Rightarrow> PartialConfig \<Rightarrow> string option \<Rightarrow> MemFile \<Rightarrow> Machine" where
  "runAgent h g config forcedId mf =
     (let cfg = finalConfig config;
          stateId = (case forcedId of Some v \<Rightarrow> v | None \<Rightarrow> generatedId h);
          m0 = emit \<lparr>state = \<lparr>run_id = stateId, goal = g, tasks = [], currentTask = 0, log = [],
                               status = Planning, stepsExecuted = 0,
                               maxSteps = cfg_maxSteps cfg, autonomous = autonomousMode cfg\<rparr>,
                     emitted = [], memory = mf, ticks = 0\<rparr>;
          m1 = emit (remember h MemGoal g None (Some stateId)
                 (with_memory (\<lambda>now. addGoal now g stateId) h
                    (log_entry LogInfo (''Starting agent with goal: '' @ g) m0)))
      in emit
           (case planResponse h of
              Inl msg \<Rightarrow>
                with_memory (\<lambda>now. updateGoalStatus now stateId GoalFailed) h
                  (set_status Failed (log_entry LogError (''Agent error: '' @ msg) m1))
            | Inr plan \<Rightarrow>
                (let planned = planTasks plan;
                     m2 = emit (remember h MemDecision
                            (''Planned '' @ show_nat (length planned) @ '' tasks for goal'')
                            None (Some stateId)
                            (log_entry LogInfo
                               (''Planned '' @ show_nat (length planned) @ '' tasks'')
                               (m1\<lparr>state := (state m1)\<lparr>tasks := planned\<rparr>\<rparr>)))
                 in finish h (task_loop cfg h [0..<length planned] m2))))"

text \<open>
  \<open>resumeUnfinishedGoals\<close>: one run per unfinished goal, in ledger order; the k-th run meets
  the host \<open>hosts k\<close>. The result lists the final states, then the ledger and all the
  snapshots emitted.
\<close>

fun resume_loop ::
  "(nat \<Rightarrow> Host) \<Rightarrow> nat \<Rightarrow> GoalRecord list \<Rightarrow> AgentState list \<times> MemFile \<times> AgentState list
     \<Rightarrow> AgentState list \<times> MemFile \<times> AgentState list" where
  "resume_loop hosts k [] acc = acc"
| "resume_loop hosts k (g # gs) (results, mf, seen) =
     (let m = runAgent (hosts k) (goal_text g)
                \<lparr>opt_maxSteps = None, opt_maxRetries = None, opt_autonomousMode = Some True,
                 opt_reflectionEnabled = None\<rparr>
                None mf
      in resume_loop hosts (k + 1) gs (results @ [state m], memory m, seen @ emitted m))"

definition resumeUnfinishedGoals ::
  "(nat \<Rightarrow> Host) \<Rightarrow> string \<Rightarrow> MemFile \<Rightarrow> AgentState list \<times> MemFile \<times> AgentState list" where
  "resumeUnfinishedGoals hosts now mf =
     resume_loop hosts 0 (getUnfinishedGoals now mf) ([], mf, [])"

section \<open>Worker (worker.ts)\<close>

text \<open>
  Redis is a key-value store of snapshots (expiry left out) and the list of messages
  published so far, each with its channel. The two awaited commands of \<open>onUpdate\<close> are
  taken to complete in the order of the \<open>emit\<close> calls that started them.

  \<open>onUpdate\<close> receives the state object of the run itself. It serialises the object at
  once for \<open>SET\<close>, so the stored snapshot is the state at the \<open>emit\<close>; the state event
  is built only after the \<open>SET\<close> has been awaited, from the same object, which the run
  has gone on changing in the meantime. What the publish that follows the k-th \<open>emit\<close>
  finds there depends on when Redis answers; it is \<open>observed k\<close>, a parameter of the job.
  After its last \<open>emit\<close> the run changes nothing more, so the last state event carries
  the final state.
\<close>

datatype DoneStatus = DoneCompleted | DoneFailed | DonePaused

datatype AgentEvent =
    StateEvent string AgentState
  | LogEvent string string string
  | DoneEvent string DoneStatus

record Redis =
  stored :: "string \<rightharpoonup> AgentState"
  published :: "(string \<times> AgentEvent) list"

record AgentJobPayload =
  agentId :: string
  job_goal :: string
  job_config :: "PartialConfig option"

definition redisKeyAgentState :: "string \<Rightarrow> string" where
  "redisKeyAgentState a = ''agent:'' @ a @ '':state''"

definition redisChannelAgentEvents :: "string \<Rightarrow> string" where
  "redisChannelAgentEvents a = ''agent:'' @ a @ '':events''"

definition publish :: "string \<Rightarrow> AgentEvent \<Rightarrow> Redis \<Rightarrow> Redis" where
  "publish a event r = r\<lparr>published := published r @ [(redisChannelAgentEvents a, event)]\<rparr>"

definition redis_set :: "string \<Rightarrow> AgentState \<Rightarrow> Redis \<Rightarrow> Redis" where
  "redis_set key v r = r\<lparr>stored := (stored r)(key \<mapsto> v)\<rparr>"

definition onUpdate :: "string \<Rightarrow> Redis \<Rightarrow> AgentState \<times> AgentState \<Rightarrow> Redis" where
  \<comment> \<open>\<open>s\<close> is the state at the call, \<open>later\<close> the state at the publish\<close>
  "onUpdate a r sl =
     (case sl of (s, later) \<Rightarrow>
        publish a (StateEvent a later) (redis_set (redisKeyAgentState a) s r))"

definition published_states :: "(nat \<Rightarrow> AgentState) \<Rightarrow> Machine \<Rightarrow> AgentState list" where
  \<comment> \<open>the states carried by the state events of a run, in the order of its \<open>emit\<close> calls\<close>
  "published_states observed m =
     map (\<lambda>k. if k + 1 = length (emitted m) then state m else observed k)
       [0..<length (emitted m)]"

definition empty_config :: PartialConfig where
  "empty_config = \<lparr>opt_maxSteps = None, opt_maxRetries = None, opt_autonomousMode = None,
                    opt_reflectionEnabled = None\<rparr>"

definition processJob ::
  "Host \<Rightarrow> (nat \<Rightarrow> AgentState) \<Rightarrow> AgentJobPayload \<Rightarrow> Redis \<Rightarrow> MemFile \<Rightarrow>
     (string \<times> RunStatus) \<times> Redis \<times> MemFile" where
  "processJob h observed job r mf =
     (let a = agentId job;
          r1 = publish a (LogEvent a ''info'' ''Job started'') r;
          m = runAgent h (job_goal job)
                (case job_config job of None \<Rightarrow> empty_config | Some c \<Rightarrow> c) (Some a) mf;
          r2 = foldl (onUpdate a) r1 (zip (emitted m) (published_states observed m));
          finalState = state m;
          r3 = redis_set (redisKeyAgentState a) finalState r2;
          r4 = publish a
                 (DoneEvent a (if status finalState = Completed then DoneCompleted else DoneFailed))
                 r3
      in ((a, status finalState), r4, memory m))"

section \<open>Vocabulary of the engine proofs\<close>

definition pass_machine :: "Pass \<Rightarrow> Machine" where
  "pass_machine p = (case p of Break r m \<Rightarrow> m | Again r m \<Rightarrow> m)"

definition quiet :: "Machine \<Rightarrow> bool" where
  "quiet m \<longleftrightarrow>
     status (state m) \<noteq> Paused \<and> list_all (\<lambda>s. status s \<noteq> Paused) (emitted m)"

definition keeps :: "nat \<Rightarrow> nat \<Rightarrow> Machine \<Rightarrow> Machine \<Rightarrow> bool" where
  "keeps n i m m' \<longleftrightarrow>
     stepsExecuted (state m) \<le> stepsExecuted (state m') \<and>
     stepsExecuted (state m') \<le> stepsExecuted (state m) + int n \<and>
     (quiet m \<longrightarrow> quiet m') \<and>
     maxSteps (state m') = maxSteps (state m) \<and> run_id (state m') = run_id (state m) \<and>
     autonomous (state m') = autonomous (state m) \<and>
     length (tasks (state m')) = length (tasks (state m)) \<and>
     (\<forall>j. j \<noteq> i \<longrightarrow> tasks (state m') ! j = tasks (state m) ! j) \<and>
     task_id (tasks (state m') ! i) = task_id (tasks (state m) ! i) \<and>
     description (tasks (state m') ! i) = description (tasks (state m) ! i)"

definition planned_machine ::
  "Host \<Rightarrow> string \<Rightarrow> PartialConfig \<Rightarrow> string option \<Rightarrow> MemFile \<Rightarrow> string \<Rightarrow> Machine \<Rightarrow> bool" where
  "planned_machine h g config fid mf plan m2 \<longleftrightarrow>
     runAgent h g config fid mf =
       emit (finish h (task_loop (finalConfig config) h [0..<length (planTasks plan)] m2)) \<and>
     tasks (state m2) = planTasks plan \<and> stepsExecuted (state m2) = 0 \<and>
     maxSteps (state m2) = cfg_maxSteps (finalConfig config) \<and>
     status (state m2) = Planning \<and>
     run_id (state m2) = (case fid of Some v \<Rightarrow> v | None \<Rightarrow> generatedId h) \<and>
     autonomous (state m2) = autonomousMode (finalConfig config) \<and>
     list_all (\<lambda>s. status s = Planning) (emitted m2)"

definition verdict_of :: "Host \<Rightarrow> string \<Rightarrow> ReflectionResult" where
  "verdict_of h response =
     (case brace_match response of
        None \<Rightarrow> default_reflection
      | Some jsonText \<Rightarrow>
          (case JSON_parse h jsonText of None \<Rightarrow> default_reflection | Some r \<Rightarrow> r))"

definition exec_result :: "ExecOutcome \<Rightarrow> string + string" where
  "exec_result out =
     (case out of
        ExecThrows msg \<Rightarrow> Inl msg
      | ExecDirect response \<Rightarrow> Inr response
      | ExecTool toolName ok summary detail \<Rightarrow>
          Inr (if ok then ''Tool '' @ toolName @ '' succeeded: '' @ detail
               else ''Tool '' @ toolName @ '' failed: '' @ detail))"

definition whole :: "real \<Rightarrow> bool" where
  \<comment> \<open>the number is an integer\<close>
  "whole x \<longleftrightarrow> x = of_int \<lfloor>x\<rfloor>"

definition settled :: "AgentConfig \<Rightarrow> nat \<Rightarrow> nat \<Rightarrow> Machine \<Rightarrow> Pass \<Rightarrow> bool" where
  \<comment> \<open>what attempt \<open>k\<close>, started on machine \<open>m\<close>, has done to the status of task \<open>i\<close>\<close>
  "settled cfg i k m p =
     (case p of
        Break r m' \<Rightarrow> task_status (tasks (state m') ! i) = TaskDone \<or>
                      task_status (tasks (state m') ! i) = TaskFailed
      | Again r m' \<Rightarrow> task_status (tasks (state m') ! i) = TaskFailed \<or>
                      (task_status (tasks (state m') ! i) = task_status (tasks (state m) ! i) \<and>
                       (whole (maxRetries cfg) \<longrightarrow> real (k + 1) \<le> maxRetries cfg)))"

definition halted :: "AgentConfig \<Rightarrow> nat \<Rightarrow> Machine \<Rightarrow> bool" where
  "halted cfg n m \<longleftrightarrow>
     length (tasks (state m)) = n \<and>
     (\<forall>i<n. task_status (tasks (state m) ! i) = TaskFailed \<longrightarrow>
        (\<forall>j<i. (task_status (tasks (state m) ! j) = TaskDone \<or>
                task_status (tasks (state m) ! j) = TaskRunning) \<and>
               (whole (maxRetries cfg) \<longrightarrow> task_status (tasks (state m) ! j) = TaskDone)) \<and>
        (\<forall>j. i < j \<and> j < n \<longrightarrow> task_status (tasks (state m) ! j) = TaskPending))"


definition job_run :: "Host \<Rightarrow> AgentJobPayload \<Rightarrow> MemFile \<Rightarrow> Machine" where
  \<comment> \<open>the call of \<open>runAgent\<close> that the worker makes for a job\<close>
  "job_run h job mf =
     runAgent h (job_goal job) (case job_config job of None \<Rightarrow> empty_config | Some c \<Rightarrow> c)
       (Some (agentId job)) mf"

section \<open>Fixtures\<close>

definition ten_lines :: string where
  "ten_lines = ''l1'' @ [LF] @ ''l2'' @ [LF] @ ''l3'' @ [LF] @ ''l4'' @ [LF] @ ''l5'' @ [LF] @
               ''l6'' @ [LF] @ ''l7'' @ [LF] @ ''l8'' @ [LF] @ ''l9'' @ [LF] @ ''l10''"

definition fixture_disk :: World where
  "fixture_disk = \<lparr>files = [''/ws/f.txt'' \<mapsto> ten_lines], dirs = {}, trace = []\<rparr>"

definition edit_X :: Edit where
  "edit_X = \<lparr>startLine = 5, endLine = 5, newText = ''X''\<rparr>"

definition edit_Y :: Edit where
  "edit_Y = \<lparr>startLine = 2, endLine = 3, newText = ''Y''\<rparr>"

definition sibling_disk :: World where
  \<comment> \<open>a disk with one file, in a directory next to the workspace \<open>/ws\<close>\<close>
  "sibling_disk = \<lparr>files = [''/ws2/secret'' \<mapsto> ''top secret''], dirs = {}, trace = []\<rparr>"

definition passwd_disk :: World where
  "passwd_disk = \<lparr>files = [''/etc/passwd'' \<mapsto> ''root:x:0:0''], dirs = {}, trace = []\<rparr>"


definition two_entry_ledger :: MemFile where
  \<comment> \<open>a ledger built by two appends: ``first'' at time t1, then ``second'' at time t2\<close>
  "two_entry_ledger =
     snd (addMemoryEntry ''id2'' ''t2'' MemTask ''second'' None None
       (snd (addMemoryEntry ''id1'' ''t1'' MemGoal ''first'' None None None)))"

definition DQ :: string where
  "DQ = [CHR 0x22]"

definition json_verdict :: "string \<Rightarrow> string \<Rightarrow> string \<Rightarrow> string \<Rightarrow> string" where
  "json_verdict s a r c =
     ''{'' @ DQ @ ''success'' @ DQ @ '':'' @ s @ '','' @ DQ @ ''analysis'' @ DQ @ '':'' @ DQ @ a @ DQ @
     '','' @ DQ @ ''shouldRetry'' @ DQ @ '':'' @ r @ '','' @ DQ @ ''confidence'' @ DQ @ '':'' @ c @ ''}''"

definition json_ok :: string where
  "json_ok = json_verdict ''true'' ''fine'' ''false'' ''90''"

definition json_retry :: string where
  "json_retry = json_verdict ''true'' ''unsure'' ''true'' ''40''"

definition json_fail :: string where
  "json_fail = json_verdict ''false'' ''wrong'' ''false'' ''80''"

definition demo_parse :: "string \<Rightarrow> ReflectionResult option" where
  "demo_parse s =
     (if s = json_ok then
        Some \<lparr>success = True, analysis = ''fine'', shouldRetry = False, adjustments = None,
              confidence = 90\<rparr>
      else if s = json_retry then
        Some \<lparr>success = True, analysis = ''unsure'', shouldRetry = True, adjustments = None,
              confidence = 40\<rparr>
      else if s = json_fail then
        Some \<lparr>success = False, analysis = ''wrong'', shouldRetry = False, adjustments = None,
              confidence = 80\<rparr>
      else None)"

definition three_step_plan :: string where
  "three_step_plan = ''1. first'' @ [LF] @ ''2) second'' @ [LF] @ ''3.  third ''"

definition steady_host :: Host where
  "steady_host =
     \<lparr>generatedId = ''fresh'', planResponse = Inr three_step_plan,
      executor = (\<lambda>i k. ExecDirect ''ok''),
      reflectResponse = (\<lambda>i k. Inr (''Verdict: '' @ json_ok)),
      JSON_parse = demo_parse, clock = (\<lambda>n. ''t'' @ show_nat n),
      newIds = (\<lambda>n. ''m'' @ show_nat n), numberToString = (\<lambda>x. ''0.5'')\<rparr>"

definition eager_host :: Host where
  "eager_host =
     steady_host\<lparr>reflectResponse := (\<lambda>i k. if i = 0 \<and> k = 0 then Inr json_retry else Inr json_ok)\<rparr>"

definition failing_host :: Host where
  "failing_host =
     steady_host\<lparr>reflectResponse := (\<lambda>i k. if i = 1 then Inr json_fail else Inr json_ok)\<rparr>"

definition throwing_host :: Host where
  "throwing_host = steady_host\<lparr>executor := (\<lambda>i k. ExecThrows ''boom'')\<rparr>"

definition one_step_budget :: PartialConfig where
  "one_step_budget = empty_config\<lparr>opt_maxSteps := Some 1\<rparr>"

definition no_budget :: PartialConfig where
  "no_budget = empty_config\<lparr>opt_maxSteps := Some 0\<rparr>"

definition wavering_host :: Host where
  \<comment> \<open>the reflection on the first task always asks for a retry, the one on the others
     reports failure\<close>
  "wavering_host =
     steady_host\<lparr>reflectResponse := (\<lambda>i k. if i = 0 then Inr json_retry else Inr json_fail)\<rparr>"

definition half_step_budget :: PartialConfig where
  "half_step_budget = empty_config\<lparr>opt_maxSteps := Some 0.5, opt_maxRetries := Some 0\<rparr>"

definition half_retry :: PartialConfig where
  "half_retry = empty_config\<lparr>opt_maxRetries := Some 0.5\<rparr>"



definition interrupted_ledger :: MemFile where
  \<comment> \<open>the ledger left by a run with id g1 that never finished\<close>
  "interrupted_ledger = addGoal ''t0'' ''write the report'' ''g1'' None"

definition paused_job :: AgentJobPayload where
  "paused_job = \<lparr>agentId = ''a1'', job_goal = ''g'', job_config = Some no_budget\<rparr>"

definition empty_redis :: Redis where
  "empty_redis = \<lparr>stored = Map.empty, published = []\<rparr>"

section \<open>Properties of the memory ledger\<close>

lemma slice_from_neg: "0 < n \<Longrightarrow> slice_from (- int n) xs = drop (length xs - n) xs"
  by (auto simp: slice_from_def Let_def max_def nat_diff_distrib')


lemma slice_from_15: "slice_from (- 15) xs = drop (length xs - 15) xs"
  using slice_from_neg[of 15 xs] by simp

lemma drop_tail_empty: "0 < n \<Longrightarrow> drop (length xs - n) xs = [] \<longleftrightarrow> xs = []"
  by (cases xs) auto






text \<open>
  C9 as stated fails on the order: \<open>getRecentMemory\<close> takes the tail of the journal with
  \<open>slice(-15)\<close> and nothing reverses it, so the text given to the Planner lists the older
  entry first.
\<close>

theorem formatMemoryForPrompt_order_counterexample:
  "formatMemoryForPrompt (\<lambda>t. t) None ''t3'' two_entry_ledger =
     ''[GOAL] t1: first'' @ [LF] @ ''[TASK] t2: second'' \<and>
   formatMemoryForPrompt (\<lambda>t. t) None ''t3'' two_entry_ledger \<noteq>
     ''[TASK] t2: second'' @ [LF] @ ''[GOAL] t1: first''"
  by (simp add: formatMemoryForPrompt_def getRecentMemory_def two_entry_ledger_def
      addMemoryEntry_def loadMemory_def saveMemory_def truthy_def slice_from_15 formatEntry_def
      type_upper_def Let_def)

text \<open>
  C9, amended. For a Planner invocation (no goal filter) the formatted memory string is the
  fixed text ``No previous memory available.'' when the journal is empty; otherwise it is
  the newline-joined rendering (type tag, local time, content, optional context) of the
  last 15 journal entries at most, in journal order, that is oldest first.
\<close>

theorem formatMemoryForPrompt_recent_oldest_first:
  "formatMemoryForPrompt toLocaleString None now mf =
     (if journal mf = [] then ''No previous memory available.''
      else join [LF] (map (formatEntry toLocaleString)
             (drop (length (journal mf) - 15) (journal mf)))) \<and>
   length (drop (length (journal mf) - 15) (journal mf)) \<le> 15"
proof -
  have e: "drop (length (journal mf) - 15) (journal mf) = [] \<longleftrightarrow> journal mf = []"
    by (rule drop_tail_empty) simp
  have j: "entries (loadMemory now mf) = journal mf"
    by (simp add: loadMemory_def journal_def split: option.splits)
  show ?thesis
    using e by (simp add: formatMemoryForPrompt_def getRecentMemory_def truthy_def
        slice_from_15 j Let_def)
qed

section \<open>Properties of apply\_patch\<close>

lemma split_lines_acc_nonempty: "split_lines_acc acc s \<noteq> []"
  by (induction acc s rule: split_lines_acc.induct) auto

lemma split_lines_length: "1 \<le> length (split_lines s)"
  using split_lines_acc_nonempty[of "[]" s] by (cases "split_lines s") (auto simp: split_lines_def)

lemma sorted_key_unique:
  fixes k :: "'a \<Rightarrow> int"
  assumes m: "mset xs = mset ys" and d: "distinct (map k xs)"
    and sx: "sorted (map k xs)" and sy: "sorted (map k ys)"
  shows "xs = ys"
proof -
  have mm: "mset (map k xs) = mset (map k ys)" using m by (metis mset_map)
  have dy: "distinct (map k ys)" using mm d by (metis mset_eq_imp_distinct_iff)
  have se: "set (map k xs) = set (map k ys)" using mm by (metis set_mset_mset)
  have eq: "map k xs = map k ys"
    by (rule sorted_distinct_set_unique[OF sx d sy dy se])
  have sxy: "set xs = set ys" using m by (metis set_mset_mset)
  have "inj_on k (set xs)" using d by (simp add: distinct_map)
  then have "inj_on k (set xs \<union> set ys)" using sxy by simp
  then show ?thesis using eq by (rule map_inj_on[rotated])
qed

lemma insert_descending_mset: "mset (insert_descending e es) = add_mset e (mset es)"
  by (induction es) auto

lemma descending_mset: "mset (descending es) = mset es"
  by (induction es) (auto simp: descending_def insert_descending_mset)

lemma insert_descending_set: "set (insert_descending e es) = insert e (set es)"
  by (induction es) auto

lemma insert_descending_sorted:
  "sorted (map (\<lambda>e. - startLine e) es) \<Longrightarrow> sorted (map (\<lambda>e. - startLine e) (insert_descending e es))"
  by (induction es) (auto simp: insert_descending_set)

lemma descending_sorted: "sorted (map (\<lambda>e. - startLine e) (descending es))"
  by (induction es) (auto simp: descending_def insert_descending_sorted)

lemma sort_edits_mset: "mset (sort_edits es) = mset es"
  by (simp add: sort_edits_def)

lemma sort_edits_sorted: "sorted (map (\<lambda>e. - startLine e) (sort_edits es))"
  by (simp add: sort_edits_def)

lemma distinct_neg_starts:
  "distinct (map startLine es) \<Longrightarrow> distinct (map (\<lambda>e. - startLine e) es)"
  by (induction es) auto

lemma distinct_starts_perm:
  assumes "mset es' = mset es" "distinct (map startLine es)"
  shows "distinct (map startLine es')"
proof -
  have "mset (map startLine es') = mset (map startLine es)" using assms(1) by (metis mset_map)
  then show ?thesis using assms(2) by (metis mset_eq_imp_distinct_iff)
qed

lemma sort_edits_perm:
  assumes "mset es' = mset es" "distinct (map startLine es)"
  shows "sort_edits es' = sort_edits es"
proof (rule sorted_key_unique[where k = "\<lambda>e. - startLine e"])
  show "mset (sort_edits es') = mset (sort_edits es)" using assms(1) by (simp add: sort_edits_mset)
  show "distinct (map (\<lambda>e. - startLine e) (sort_edits es'))"
    by (rule distinct_neg_starts, rule distinct_starts_perm[OF _ assms(2)])
       (simp add: sort_edits_mset assms(1))
  show "sorted (map (\<lambda>e. - startLine e) (sort_edits es'))" by (rule sort_edits_sorted)
  show "sorted (map (\<lambda>e. - startLine e) (sort_edits es))" by (rule sort_edits_sorted)
qed

lemma descending_eq_sort_edits:
  assumes "distinct (map startLine es)"
  shows "descending es = sort_edits es"
proof (rule sorted_key_unique[where k = "\<lambda>e. - startLine e"])
  show "mset (descending es) = mset (sort_edits es)" by (simp add: sort_edits_mset descending_mset)
  show "distinct (map (\<lambda>e. - startLine e) (descending es))"
    by (rule distinct_neg_starts, rule distinct_starts_perm[OF _ assms]) (simp add: descending_mset)
  show "sorted (map (\<lambda>e. - startLine e) (descending es))" by (rule descending_sorted)
  show "sorted (map (\<lambda>e. - startLine e) (sort_edits es))" by (rule sort_edits_sorted)
qed

lemma disjoint_distinct_starts:
  "pairwise_disjoint es \<Longrightarrow> list_all (\<lambda>e. startLine e \<le> endLine e) es \<Longrightarrow> distinct (map startLine es)"
proof (induction es)
  case Nil
  then show ?case by simp
next
  case (Cons e es)
  have "startLine e \<notin> startLine ` set es"
  proof
    assume "startLine e \<in> startLine ` set es"
    then obtain f where f: "f \<in> set es" "startLine f = startLine e" by auto
    have "\<not> overlaps e f" using Cons.prems(1) f(1) by (auto simp: list_all_iff)
    moreover have "startLine f \<le> endLine f" using Cons.prems(2) f(1) by (auto simp: list_all_iff)
    moreover have "startLine e \<le> endLine e" using Cons.prems(2) by simp
    ultimately show False using f(2) by (simp add: overlaps_def)
  qed
  then show ?case using Cons by simp
qed

lemma disjoint_set:
  "pairwise_disjoint es \<Longrightarrow> e \<in> set es \<Longrightarrow> f \<in> set es \<Longrightarrow> e \<noteq> f \<Longrightarrow> \<not> overlaps e f"
proof (induction es)
  case Nil
  then show ?case by simp
next
  case (Cons a es)
  then show ?case by (auto simp: list_all_iff overlaps_def)
qed

lemma patch_loop_ok:
  assumes "sorted (map (\<lambda>e. - startLine e) es)" and "distinct (map startLine es)"
    and "\<And>e. e \<in> set es \<Longrightarrow> 1 \<le> startLine e \<and> startLine e \<le> endLine e \<and> endLine e \<le> int (length lines)"
    and "\<And>e f. e \<in> set es \<Longrightarrow> f \<in> set es \<Longrightarrow> e \<noteq> f \<Longrightarrow> \<not> overlaps e f"
  shows "patch_loop path lines es = Inr (foldl apply_edit lines es)"
  using assms
proof (induction es arbitrary: lines)
  case Nil
  then show ?case by simp
next
  case (Cons h es)
  have hb: "1 \<le> startLine h" "startLine h \<le> endLine h" "endLine h \<le> int (length lines)"
    using Cons.prems(3)[of h] by auto
  let ?new = "splice (nat (startLine h - 1)) (nat (endLine h - 1 - (startLine h - 1) + 1))
                (split_lines (newText h)) lines"
  have new_eq: "?new = apply_edit lines h"
    using hb by (simp add: splice_def apply_edit_def nat_add_distrib[symmetric])
  have len: "startLine h \<le> int (length ?new)"
    using hb split_lines_length[of "newText h"] by (simp add: splice_def)
  have rest: "1 \<le> startLine e \<and> startLine e \<le> endLine e \<and> endLine e \<le> int (length ?new)"
    if e: "e \<in> set es" for e
  proof -
    have b: "1 \<le> startLine e" "startLine e \<le> endLine e" using Cons.prems(3)[of e] e by auto
    have "startLine e \<le> startLine h" using Cons.prems(1) e by auto
    moreover have "startLine h \<notin> startLine ` set es" using Cons.prems(2) by simp
    then have "startLine e \<noteq> startLine h" using e by (metis imageI)
    ultimately have lt: "startLine e < startLine h" by simp
    have "e \<noteq> h" using lt by auto
    then have "\<not> overlaps h e" using Cons.prems(4)[of h e] e by auto
    then have "endLine e < startLine h" using lt hb by (auto simp: overlaps_def)
    then show ?thesis using b len by simp
  qed
  have IH: "patch_loop path ?new es = Inr (foldl apply_edit ?new es)"
  proof (rule Cons.IH)
    show "sorted (map (\<lambda>e. - startLine e) es)" using Cons.prems(1) by simp
    show "distinct (map startLine es)" using Cons.prems(2) by simp
    show "\<And>e. e \<in> set es \<Longrightarrow> 1 \<le> startLine e \<and> startLine e \<le> endLine e \<and> endLine e \<le> int (length ?new)"
      by (rule rest)
    show "\<And>e f. e \<in> set es \<Longrightarrow> f \<in> set es \<Longrightarrow> e \<noteq> f \<Longrightarrow> \<not> overlaps e f"
      using Cons.prems(4) by auto
  qed
  have chk: "\<not> (startLine h - 1 < 0 \<or> endLine h - 1 < startLine h - 1 \<or> endLine h - 1 \<ge> int (length lines))"
    using hb by simp
  show ?case
    using chk IH new_eq by (simp add: Let_def)
qed

text \<open>
  C8. For a file that exists inside the workspace and a non-empty list of edits whose line
  ranges lie within the file and are pairwise disjoint, \<open>apply_patch\<close> gives the same
  result and the same disk whatever the order of the edits array, it succeeds, and the
  content written is the one obtained by applying the edits one at a time in descending
  \<open>startLine\<close> order.
\<close>

theorem apply_patch_order_independent:
  assumes perm: "mset edits' = mset edits"
    and disj: "pairwise_disjoint edits"
    and path: "path \<noteq> []" "safeResolve base path = Inr filePath"
    and fil: "files w filePath = Some original"
    and rng: "list_all (in_range (split_lines original)) edits"
    and ne: "edits \<noteq> []"
  shows "executeTool_apply_patch base path edits' w = executeTool_apply_patch base path edits w \<and>
         fst (executeTool_apply_patch base path edits' w) = ToolOk (PatchData path (length edits)) \<and>
         files (snd (executeTool_apply_patch base path edits' w)) filePath =
           Some (join [LF] (apply_descending (split_lines original) edits))"
proof -
  let ?lines = "split_lines original"
  have se: "list_all (\<lambda>e. startLine e \<le> endLine e) edits"
    using rng by (auto simp: list_all_iff in_range_def)
  have dist: "distinct (map startLine edits)"
    by (rule disjoint_distinct_starts[OF disj se])
  have sort_eq: "sort_edits edits' = sort_edits edits"
    by (rule sort_edits_perm[OF perm dist])
  have set_eq: "set edits' = set edits" using perm by (metis set_mset_mset)
  have len_eq: "length edits' = length edits" using perm by (metis size_mset)
  have ne': "edits' \<noteq> []" using ne len_eq by auto
  have valid: "list_all (\<lambda>e. startLine e \<ge> 1 \<and> endLine e \<ge> 1) edits"
    using rng by (auto simp: list_all_iff in_range_def)
  then have valid': "list_all (\<lambda>e. startLine e \<ge> 1 \<and> endLine e \<ge> 1) edits'"
    using set_eq by (simp add: list_all_iff)
  have p: "parse_apply_patch path edits = Inr (path, edits)"
    using path(1) ne valid by (cases path; cases edits) (auto simp: parse_apply_patch_def)
  have p': "parse_apply_patch path edits' = Inr (path, edits')"
    using path(1) ne' valid' by (cases path; cases edits') (auto simp: parse_apply_patch_def)
  have set_sorted: "set (sort_edits edits) = set edits"
    using sort_edits_mset[of edits] by (metis set_mset_mset)
  have dist_sorted: "distinct (map startLine (sort_edits edits))"
    by (rule distinct_starts_perm[OF sort_edits_mset dist])
  have loop: "patch_loop path ?lines (sort_edits edits) = Inr (foldl apply_edit ?lines (sort_edits edits))"
  proof (rule patch_loop_ok[OF sort_edits_sorted dist_sorted])
    show "\<And>e. e \<in> set (sort_edits edits) \<Longrightarrow>
        1 \<le> startLine e \<and> startLine e \<le> endLine e \<and> endLine e \<le> int (length ?lines)"
      using rng by (auto simp: set_sorted list_all_iff in_range_def)
    show "\<And>e f. e \<in> set (sort_edits edits) \<Longrightarrow> f \<in> set (sort_edits edits) \<Longrightarrow> e \<noteq> f \<Longrightarrow> \<not> overlaps e f"
      using disjoint_set[OF disj] by (simp add: set_sorted)
  qed
  have spec: "foldl apply_edit ?lines (sort_edits edits) = apply_descending ?lines edits"
    by (simp add: apply_descending_def descending_eq_sort_edits[OF dist])
  have len_sorted: "length (sort_edits edits) = length edits"
    by (simp add: sort_edits_def)
  have run: "executeTool_apply_patch base path es w =
      (ToolOk (PatchData path (length edits)),
       fs_writeFile filePath (join [LF] (apply_descending ?lines edits))
         (did (OpReadFile filePath) (did (OpStat filePath) w)))"
    if "parse_apply_patch path es = Inr (path, es)" "sort_edits es = sort_edits edits" for es
    using that path(2) fil loop spec len_sorted
    by (simp add: executeTool_apply_patch_def fileExists_def fs_readFile_def did_def Let_def)
  show ?thesis
    using run[OF p' sort_eq] run[OF p refl]
    by (simp add: fs_writeFile_def did_def)
qed

theorem apply_patch_order_independent_witness:
  "mset [edit_Y, edit_X] = mset [edit_X, edit_Y] \<and> pairwise_disjoint [edit_X, edit_Y] \<and>
   safeResolve ''/ws'' ''f.txt'' = Inr ''/ws/f.txt'' \<and>
   files fixture_disk ''/ws/f.txt'' = Some ten_lines \<and>
   list_all (in_range (split_lines ten_lines)) [edit_X, edit_Y] \<and>
   executeTool_apply_patch ''/ws'' ''f.txt'' [edit_Y, edit_X] fixture_disk =
     executeTool_apply_patch ''/ws'' ''f.txt'' [edit_X, edit_Y] fixture_disk \<and>
   files (snd (executeTool_apply_patch ''/ws'' ''f.txt'' [edit_Y, edit_X] fixture_disk)) ''/ws/f.txt'' =
     Some (''l1'' @ [LF] @ ''Y'' @ [LF] @ ''l4'' @ [LF] @ ''X'' @ [LF] @ ''l6'' @ [LF] @ ''l7'' @ [LF] @
           ''l8'' @ [LF] @ ''l9'' @ [LF] @ ''l10'')"
proof -
  have perm: "mset [edit_Y, edit_X] = mset [edit_X, edit_Y]" by simp
  have disj: "pairwise_disjoint [edit_X, edit_Y]"
    by (simp add: overlaps_def edit_X_def edit_Y_def)
  have res: "safeResolve ''/ws'' ''f.txt'' = Inr ''/ws/f.txt''"
    by (simp add: safeResolve_def path_resolve_def normalize_step_def Let_def)
  have fil: "files fixture_disk ''/ws/f.txt'' = Some ten_lines"
    by (simp add: fixture_disk_def)
  have sl: "split_lines ten_lines = [''l1'', ''l2'', ''l3'', ''l4'', ''l5'', ''l6'', ''l7'', ''l8'', ''l9'', ''l10'']"
    by (simp add: split_lines_def ten_lines_def LF_def CR_def)
  have rng: "list_all (in_range (split_lines ten_lines)) [edit_X, edit_Y]"
    by (simp add: sl in_range_def edit_X_def edit_Y_def)
  have sx: "split_lines ''X'' = [''X'']" and sy: "split_lines ''Y'' = [''Y'']"
    by (simp_all add: split_lines_def LF_def CR_def)
  have content: "join [LF] (apply_descending (split_lines ten_lines) [edit_X, edit_Y]) =
     ''l1'' @ [LF] @ ''Y'' @ [LF] @ ''l4'' @ [LF] @ ''X'' @ [LF] @ ''l6'' @ [LF] @ ''l7'' @ [LF] @
           ''l8'' @ [LF] @ ''l9'' @ [LF] @ ''l10''"
    by (simp add: sl sx sy apply_descending_def descending_def apply_edit_def edit_X_def
        edit_Y_def)
  have ne: "''f.txt'' \<noteq> []" "[edit_X, edit_Y] \<noteq> []"
    by simp_all
  note t = apply_patch_order_independent[OF perm disj ne(1) res fil rng ne(2)]
  have same: "executeTool_apply_patch ''/ws'' ''f.txt'' [edit_Y, edit_X] fixture_disk =
      executeTool_apply_patch ''/ws'' ''f.txt'' [edit_X, edit_Y] fixture_disk"
    using t by (rule conjunct1)
  have written: "files (snd (executeTool_apply_patch ''/ws'' ''f.txt'' [edit_Y, edit_X] fixture_disk))
      ''/ws/f.txt'' = Some (join [LF] (apply_descending (split_lines ten_lines) [edit_X, edit_Y]))"
    using t by (rule conjunct2[THEN conjunct2])
  show ?thesis
    using perm disj res fil rng same written[unfolded content] by (intro conjI)
qed

section \<open>Properties of path containment\<close>

lemma safeResolve_rejects_non_prefix:
  "\<not> startsWith (path_resolve base p) base \<Longrightarrow>
   safeResolve base p = Inl ''Path escapes workspace root.''"
  by (simp add: safeResolve_def Let_def)

lemma read_file_rejected_without_io:
  assumes "parse_read_file r = Inr (p, a, b, n)"
    and "\<not> startsWith (path_resolve base p) base"
  shows "executeTool_read_file base r w = (ToolFail ''TOOL_ERROR'' ''Path escapes workspace root.'', w)"
  using assms by (simp add: executeTool_read_file_def safeResolve_rejects_non_prefix tool_error_def)

lemma readFileTool_rejected_without_io:
  assumes "\<not> startsWith (path_resolve base p) base"
  shows "readFileTool base p w =
    (\<lparr>out_success = False, out_result = None,
      out_error = Some ''Access denied: Path outside workspace''\<rparr>, w)"
  using assms by (simp add: readFileTool_def Let_def)

lemma read_file_etc_passwd_rejected:
  "executeTool_read_file ''/ws''
      \<lparr>rf_path = ''../../etc/passwd'', rf_startLine = None, rf_endLine = None, rf_maxBytes = None\<rparr>
      passwd_disk = (ToolFail ''TOOL_ERROR'' ''Path escapes workspace root.'', passwd_disk) \<and>
   fst (readFileTool ''/ws'' ''../../etc/passwd'' passwd_disk) =
     \<lparr>out_success = False, out_result = None,
      out_error = Some ''Access denied: Path outside workspace''\<rparr> \<and>
   trace (snd (readFileTool ''/ws'' ''../../etc/passwd'' passwd_disk)) = []"
proof -
  have r: "path_resolve ''/ws'' ''../../etc/passwd'' = ''/etc/passwd''"
    by (simp add: path_resolve_def normalize_step_def Let_def)
  have n: "\<not> startsWith (path_resolve ''/ws'' ''../../etc/passwd'') ''/ws''"
    unfolding r by simp
  have p: "parse_read_file
      \<lparr>rf_path = ''../../etc/passwd'', rf_startLine = None, rf_endLine = None, rf_maxBytes = None\<rparr>
      = Inr (''../../etc/passwd'', None, None, 250000)"
    by (simp add: parse_read_file_def opt_ok_def)
  show ?thesis
    using read_file_rejected_without_io[OF p n] readFileTool_rejected_without_io[OF n]
    by (simp add: passwd_disk_def)
qed

text \<open>
  C2 fails on the code where the claim is right. The containment test is a string prefix
  test, so a path that resolves into a sibling directory whose name merely begins with the
  root's name passes it: against the root \<open>/ws\<close> the argument \<open>../ws2/secret\<close> resolves to
  \<open>/ws2/secret\<close>, which is outside the workspace, and both \<open>read_file\<close> implementations
  go on to read the file and return its bytes.
\<close>

theorem read_file_reads_outside_workspace:
  "safeResolve ''/ws'' ''../ws2/secret'' = Inr ''/ws2/secret'' \<and>
   \<not> inside_workspace ''/ws'' ''/ws2/secret'' \<and>
   executeTool_read_file ''/ws''
      \<lparr>rf_path = ''../ws2/secret'', rf_startLine = None, rf_endLine = None, rf_maxBytes = None\<rparr>
      sibling_disk =
     (ToolOk (ReadData ''../ws2/secret'' ''top secret'' False),
      sibling_disk\<lparr>trace := [OpReadFile ''/ws2/secret'']\<rparr>) \<and>
   readFileTool ''/ws'' ''../ws2/secret'' sibling_disk =
     (\<lparr>out_success = True, out_result = Some ''top secret'', out_error = None\<rparr>,
      sibling_disk\<lparr>trace := [OpExists ''/ws2/secret'', OpReadFile ''/ws2/secret'']\<rparr>)"
proof -
  have r: "path_resolve ''/ws'' ''../ws2/secret'' = ''/ws2/secret''"
    by (simp add: path_resolve_def normalize_step_def Let_def)
  have s: "safeResolve ''/ws'' ''../ws2/secret'' = Inr ''/ws2/secret''"
    by (simp add: safeResolve_def r)
  have i: "\<not> inside_workspace ''/ws'' ''/ws2/secret''"
    by (simp add: inside_workspace_def)
  have p: "parse_read_file
      \<lparr>rf_path = ''../ws2/secret'', rf_startLine = None, rf_endLine = None, rf_maxBytes = None\<rparr>
      = Inr (''../ws2/secret'', None, None, 250000)"
    by (simp add: parse_read_file_def opt_ok_def)
  have e: "executeTool_read_file ''/ws''
      \<lparr>rf_path = ''../ws2/secret'', rf_startLine = None, rf_endLine = None, rf_maxBytes = None\<rparr>
      sibling_disk =
     (ToolOk (ReadData ''../ws2/secret'' ''top secret'' False),
      sibling_disk\<lparr>trace := [OpReadFile ''/ws2/secret'']\<rparr>)"
    by (simp add: executeTool_read_file_def p s fs_readFile_def sibling_disk_def did_def
        falsy_num_def Let_def)
  have t: "readFileTool ''/ws'' ''../ws2/secret'' sibling_disk =
     (\<lparr>out_success = True, out_result = Some ''top secret'', out_error = None\<rparr>,
      sibling_disk\<lparr>trace := [OpExists ''/ws2/secret'', OpReadFile ''/ws2/secret'']\<rparr>)"
    by (simp add: readFileTool_def r fs_existsSync_def fs_readFile_def sibling_disk_def did_def
        Let_def)
  show ?thesis using s i e t by (intro conjI)
qed

section \<open>Properties of the orchestration loop\<close>

lemma log_entry_proj [simp]:
  "tasks (state (log_entry t msg m)) = tasks (state m)"
  "status (state (log_entry t msg m)) = status (state m)"
  "stepsExecuted (state (log_entry t msg m)) = stepsExecuted (state m)"
  "maxSteps (state (log_entry t msg m)) = maxSteps (state m)"
  "run_id (state (log_entry t msg m)) = run_id (state m)"
  "autonomous (state (log_entry t msg m)) = autonomous (state m)"
  "emitted (log_entry t msg m) = emitted m"
  by (simp_all add: log_entry_def)

lemma emit_proj [simp]:
  "state (emit m) = state m"
  "emitted (emit m) = emitted m @ [state m]"
  by (simp_all add: emit_def)

lemma set_status_proj [simp]:
  "tasks (state (set_status st m)) = tasks (state m)"
  "status (state (set_status st m)) = st"
  "stepsExecuted (state (set_status st m)) = stepsExecuted (state m)"
  "maxSteps (state (set_status st m)) = maxSteps (state m)"
  "run_id (state (set_status st m)) = run_id (state m)"
  "autonomous (state (set_status st m)) = autonomous (state m)"
  "emitted (set_status st m) = emitted m"
  by (simp_all add: set_status_def)

lemma update_task_proj [simp]:
  "tasks (state (update_task i f m)) = (tasks (state m))[i := f (tasks (state m) ! i)]"
  "status (state (update_task i f m)) = status (state m)"
  "stepsExecuted (state (update_task i f m)) = stepsExecuted (state m)"
  "maxSteps (state (update_task i f m)) = maxSteps (state m)"
  "run_id (state (update_task i f m)) = run_id (state m)"
  "autonomous (state (update_task i f m)) = autonomous (state m)"
  "emitted (update_task i f m) = emitted m"
  by (simp_all add: update_task_def)

lemma remember_proj [simp]:
  "state (remember h t text ctx gid m) = state m"
  "emitted (remember h t text ctx gid m) = emitted m"
  by (simp_all add: remember_def)

lemma with_memory_proj [simp]:
  "state (with_memory f h m) = state m"
  "emitted (with_memory f h m) = emitted m"
  by (simp_all add: with_memory_def)

lemma catch_block_proj [simp]:
  "maxSteps (state (catch_block cfg i k msg m)) = maxSteps (state m)"
  "stepsExecuted (state (catch_block cfg i k msg m)) = stepsExecuted (state m)"
  "run_id (state (catch_block cfg i k msg m)) = run_id (state m)"
  "autonomous (state (catch_block cfg i k msg m)) = autonomous (state m)"
  "status (state (catch_block cfg i k msg m)) = status (state m)"
  "emitted (catch_block cfg i k msg m) = emitted m"
  "tasks (state (catch_block cfg i k msg m)) =
     (if real k > maxRetries cfg
      then (tasks (state m))[i := (tasks (state m) ! i)\<lparr>task_status := TaskFailed,
             result := Some (''Failed after '' @ show_nat k @ '' attempts: '' @ msg)\<rparr>]
      else tasks (state m))"
  by (simp_all add: catch_block_def Let_def)

lemma exec_proj [simp]:
  "tasks (state (snd (executeTaskWithTools h i k m))) = tasks (state m)"
  "status (state (snd (executeTaskWithTools h i k m))) = status (state m)"
  "stepsExecuted (state (snd (executeTaskWithTools h i k m))) = stepsExecuted (state m)"
  "maxSteps (state (snd (executeTaskWithTools h i k m))) = maxSteps (state m)"
  "run_id (state (snd (executeTaskWithTools h i k m))) = run_id (state m)"
  "autonomous (state (snd (executeTaskWithTools h i k m))) = autonomous (state m)"
  "emitted (snd (executeTaskWithTools h i k m)) = emitted m"
  by (simp_all add: executeTaskWithTools_def split: ExecOutcome.splits)

lemma reflect_proj [simp]:
  "state (snd (reflectOnTask h i response m)) = state m"
  "emitted (snd (reflectOnTask h i response m)) = emitted m"
  by (simp_all add: reflectOnTask_def split: option.splits)

lemma after_execute_proj [simp]:
  "tasks (state (after_execute i r m)) = tasks (state m)"
  "status (state (after_execute i r m)) = status (state m)"
  "stepsExecuted (state (after_execute i r m)) = stepsExecuted (state m) + 1"
  "maxSteps (state (after_execute i r m)) = maxSteps (state m)"
  "run_id (state (after_execute i r m)) = run_id (state m)"
  "autonomous (state (after_execute i r m)) = autonomous (state m)"
  "emitted (after_execute i r m) =
     emitted m @ [state (after_execute i r m)]"
  by (simp_all add: after_execute_def)

lemma keeps_refl: "keeps 0 i m m"
  by (simp add: keeps_def)

lemma keeps_trans: "keeps a i m m' \<Longrightarrow> keeps b i m' m'' \<Longrightarrow> keeps (a + b) i m m''"
  by (auto simp: keeps_def)

lemma keeps_mono: "keeps a i m m' \<Longrightarrow> a \<le> b \<Longrightarrow> keeps b i m m'"
  by (auto simp: keeps_def)

lemma keeps_state_eq:
  "state m' = state m \<Longrightarrow> emitted m' = emitted m \<Longrightarrow> keeps 0 i m m'"
  by (simp add: keeps_def quiet_def)

lemma nth_update_field:
  "g v = g (xs ! i) \<Longrightarrow> g (xs[i := v] ! i) = g (xs ! i)"
  by (cases "i < length xs") (simp_all add: list_update_beyond)

lemma keeps_catch: "keeps 0 i m (catch_block cfg i k msg m)"
  by (simp add: keeps_def nth_update_field quiet_def)

lemma keeps_judge: "keeps 0 i m (pass_machine (judge cfg i k res r m))"
  by (simp add: keeps_def judge_def pass_machine_def Let_def nth_update_field quiet_def)

lemma keeps_reflecting: "keeps 0 i m (emit (set_status Reflecting m))"
  by (simp add: keeps_def quiet_def)

lemma keeps_reflect_stage: "keeps 0 i m (pass_machine (reflect_stage cfg h i k res m))"
proof (cases "reflectResponse h i k")
  case (Inl msg)
  have "keeps (0 + 0) i m (catch_block cfg i (k + 1) msg (emit (set_status Reflecting m)))"
    by (rule keeps_trans[OF keeps_reflecting keeps_catch])
  then show ?thesis
    using Inl by (simp add: reflect_stage_def pass_machine_def Let_def)
next
  case (Inr response)
  let ?m3 = "emit (set_status Reflecting m)"
  obtain r m4 where rm: "reflectOnTask h i response ?m3 = (r, m4)"
    by (cases "reflectOnTask h i response ?m3")
  have m4: "m4 = snd (reflectOnTask h i response ?m3)"
    using rm by simp
  have "keeps 0 i ?m3 m4"
    unfolding m4 by (rule keeps_state_eq) simp_all
  then have "keeps (0 + 0) i m m4"
    by (rule keeps_trans[OF keeps_reflecting])
  then have "keeps (0 + 0 + 0) i m (pass_machine (judge cfg i k res r m4))"
    by (rule keeps_trans[OF _ keeps_judge])
  then show ?thesis using Inr rm by (simp add: reflect_stage_def Let_def)
qed

lemma keeps_after_execute: "keeps 1 i m (after_execute i r m)"
  by (simp add: keeps_def quiet_def)

lemma keeps_set_done:
  "keeps 0 i m (update_task i (\<lambda>t. t\<lparr>task_status := TaskDone\<rparr>) m)"
  by (simp add: keeps_def nth_update_field quiet_def)

lemma keeps_exec: "keeps 0 i m (snd (executeTaskWithTools h i k m))"
  by (simp add: keeps_def quiet_def)

lemma keeps_attempt: "keeps 1 i m (pass_machine (attempt cfg h i k res m))"
proof -
  obtain x m1 where ex: "executeTaskWithTools h i k m = (x, m1)"
    by (cases "executeTaskWithTools h i k m")
  have "m1 = snd (executeTaskWithTools h i k m)"
    using ex by simp
  then have k1: "keeps 0 i m m1"
    by (simp add: keeps_exec)
  show ?thesis
  proof (cases x)
    case (Inl msg)
    have "keeps (0 + 0) i m (catch_block cfg i (k + 1) msg m1)"
      by (rule keeps_trans[OF k1 keeps_catch])
    then have "keeps 1 i m (catch_block cfg i (k + 1) msg m1)"
      by (rule keeps_mono) simp
    then show ?thesis using ex Inl by (simp add: attempt_def pass_machine_def)
  next
    case (Inr res')
    have k2: "keeps (0 + 1) i m (after_execute i res' m1)"
      by (rule keeps_trans[OF k1 keeps_after_execute])
    show ?thesis
    proof (cases "reflectionEnabled cfg")
      case True
      have "keeps (0 + 1 + 0) i m
              (pass_machine (reflect_stage cfg h i k res' (after_execute i res' m1)))"
        by (rule keeps_trans[OF k2 keeps_reflect_stage])
      then show ?thesis using ex Inr True by (simp add: attempt_def Let_def)
    next
      case False
      have "keeps (0 + 1 + 0) i m
              (update_task i (\<lambda>t. t\<lparr>task_status := TaskDone\<rparr>) (after_execute i res' m1))"
        by (rule keeps_trans[OF k2 keeps_set_done])
      then show ?thesis using ex Inr False by (simp add: attempt_def Let_def pass_machine_def)
    qed
  qed
qed

lemma whole_succ_le: "whole x \<Longrightarrow> real k < x \<Longrightarrow> real (k + 1) \<le> x"
proof -
  assume w: "whole x" and lt: "real k < x"
  obtain z where z: "x = of_int z" using w unfolding whole_def by blast
  have "int k < z" using lt unfolding z by linarith
  then have "int (k + 1) \<le> z" by simp
  then have "real_of_int (int (k + 1)) \<le> of_int z" by (simp only: of_int_le_iff)
  then show ?thesis unfolding z by simp
qed

lemma whole_bound:
  assumes "whole a" and "whole b" and "real_of_int n < a + of_int \<lfloor>b\<rfloor> + 1"
  shows "real_of_int n \<le> a + b"
proof -
  obtain x where x: "a = of_int x" using assms(1) unfolding whole_def by blast
  obtain y where y: "b = of_int y" using assms(2) unfolding whole_def by blast
  have "real_of_int n < of_int (x + y + 1)" using assms(3) unfolding x y by simp
  then have "n < x + y + 1" by (simp only: of_int_less_iff)
  then have "n \<le> x + y" by simp
  then have "real_of_int n \<le> of_int (x + y)" by (simp only: of_int_le_iff)
  then show ?thesis unfolding x y by simp
qed

lemma overshoot_bounds:
  assumes "real_of_int n < a + of_int \<lfloor>b\<rfloor> + 1"
  shows "real_of_int n < a + b + 1"
    and "whole a \<and> whole b \<longrightarrow> real_of_int n \<le> a + b"
proof -
  have "real_of_int \<lfloor>b\<rfloor> \<le> b" by (rule of_int_floor_le)
  then show "real_of_int n < a + b + 1" using assms by linarith
  show "whole a \<and> whole b \<longrightarrow> real_of_int n \<le> a + b"
    using whole_bound[OF _ _ assms] by blast
qed

lemma retries_le_floor: "real k \<le> x \<longleftrightarrow> int k \<le> \<lfloor>x\<rfloor>"
  by (simp add: le_floor_iff)

lemma retry_loop_exit:
  "\<not> real k \<le> maxRetries cfg \<Longrightarrow> retry_loop cfg h i k res m = (res, m)"
  by simp

lemma retry_loop_break:
  "real k \<le> maxRetries cfg \<Longrightarrow> attempt cfg h i k res m = Break r m' \<Longrightarrow>
   retry_loop cfg h i k res m = (r, m')"
  by simp

lemma retry_loop_again:
  "real k \<le> maxRetries cfg \<Longrightarrow> attempt cfg h i k res m = Again r m' \<Longrightarrow>
   retry_loop cfg h i k res m = retry_loop cfg h i (k + 1) r m'"
  by simp

declare retry_loop.simps [simp del]

lemma keeps_retry_loop:
  "keeps (nat (\<lfloor>maxRetries cfg\<rfloor> + 1 - int k)) i m (snd (retry_loop cfg h i k res m))"
proof (induction cfg h i k res m rule: retry_loop.induct)
  case (1 cfg h i retries res m)
  show ?case
  proof (cases "real retries \<le> maxRetries cfg")
    case False
    then show ?thesis
      using keeps_mono[OF keeps_refl, of "nat (\<lfloor>maxRetries cfg\<rfloor> + 1 - int retries)" i m]
      by (simp add: retry_loop_exit)
  next
    case True
    have T: "int retries \<le> \<lfloor>maxRetries cfg\<rfloor>" using True by (simp only: retries_le_floor)
    have ka: "keeps 1 i m (pass_machine (attempt cfg h i retries res m))"
      by (rule keeps_attempt)
    show ?thesis
    proof (cases "attempt cfg h i retries res m")
      case (Break r m')
      have "keeps 1 i m m'" using ka Break by (simp add: pass_machine_def)
      then have "keeps (nat (\<lfloor>maxRetries cfg\<rfloor> + 1 - int retries)) i m m'"
        by (rule keeps_mono) (use T in simp)
      then show ?thesis using True Break by (simp add: retry_loop_break)
    next
      case (Again r m')
      have ih: "keeps (nat (\<lfloor>maxRetries cfg\<rfloor> + 1 - int (retries + 1))) i m'
                  (snd (retry_loop cfg h i (retries + 1) r m'))"
        by (rule "1.IH"[OF True Again])
      have "keeps 1 i m m'" using ka Again by (simp add: pass_machine_def)
      then have "keeps (1 + nat (\<lfloor>maxRetries cfg\<rfloor> + 1 - int (retries + 1))) i m
                  (snd (retry_loop cfg h i (retries + 1) r m'))"
        using ih by (rule keeps_trans)
      then have "keeps (nat (\<lfloor>maxRetries cfg\<rfloor> + 1 - int retries)) i m
                  (snd (retry_loop cfg h i (retries + 1) r m'))"
        by (rule keeps_mono) (use T in simp)
      then show ?thesis using True Again by (simp add: retry_loop_again)
    qed
  qed
qed

lemma keeps_start_task: "keeps 0 i m (start_task i m)"
  by (simp add: start_task_def keeps_def quiet_def nth_update_field)

lemma keeps_complete_task: "keeps 0 i m (complete_task h i res m)"
  by (simp add: complete_task_def keeps_def quiet_def nth_update_field)

lemma keeps_run_task: "keeps (nat (\<lfloor>maxRetries cfg\<rfloor> + 1)) i m (run_task cfg h i m)"
proof -
  obtain res m2 where rl: "retry_loop cfg h i 0 [] (start_task i m) = (res, m2)"
    by (cases "retry_loop cfg h i 0 [] (start_task i m)")
  have "keeps (nat (\<lfloor>maxRetries cfg\<rfloor> + 1 - int 0)) i (start_task i m)
          (snd (retry_loop cfg h i 0 [] (start_task i m)))"
    by (rule keeps_retry_loop)
  then have "keeps (nat (\<lfloor>maxRetries cfg\<rfloor> + 1)) i (start_task i m) m2"
    using rl by simp
  then have "keeps (0 + nat (\<lfloor>maxRetries cfg\<rfloor> + 1)) i m m2"
    by (rule keeps_trans[OF keeps_start_task])
  then have "keeps (0 + nat (\<lfloor>maxRetries cfg\<rfloor> + 1) + 0) i m (complete_task h i res m2)"
    by (rule keeps_trans[OF _ keeps_complete_task])
  then show ?thesis using rl by (simp add: run_task_def)
qed

lemma task_loop_budget:
  assumes R: "0 \<le> maxRetries cfg"
  shows "quiet m \<Longrightarrow>
     real_of_int (stepsExecuted (state m)) < maxSteps (state m) + of_int \<lfloor>maxRetries cfg\<rfloor> + 1 \<Longrightarrow>
     maxSteps (state (task_loop cfg h idxs m)) = maxSteps (state m) \<and>
     real_of_int (stepsExecuted (state (task_loop cfg h idxs m))) <
       maxSteps (state m) + of_int \<lfloor>maxRetries cfg\<rfloor> + 1 \<and>
     list_all (\<lambda>s. status s \<noteq> Paused) (emitted (task_loop cfg h idxs m)) \<and>
     (status (state (task_loop cfg h idxs m)) = Paused \<longrightarrow>
        maxSteps (state m) \<le> real_of_int (stepsExecuted (state (task_loop cfg h idxs m))))"
proof (induction idxs arbitrary: m)
  case Nil
  then show ?case by (simp add: quiet_def)
next
  case (Cons i rest)
  show ?case
  proof (cases "real_of_int (stepsExecuted (state m)) \<ge> maxSteps (state m)")
    case True
    have eq: "task_loop cfg h (i # rest) m =
        set_status Paused
          (log_entry LogWarning
             (''Maximum steps ('' @ show_number h (maxSteps (state m)) @
              '') reached. Stopping execution.'') m)"
      by (simp only: task_loop.simps if_P[OF True])
    show ?thesis unfolding eq using Cons.prems True by (simp add: quiet_def)
  next
    case False
    let ?m3 = "run_task cfg h i m"
    have F: "0 \<le> \<lfloor>maxRetries cfg\<rfloor>" using R by simp
    have k: "keeps (nat (\<lfloor>maxRetries cfg\<rfloor> + 1)) i m ?m3" by (rule keeps_run_task)
    have q3: "quiet ?m3" using k Cons.prems(1) by (simp add: keeps_def)
    have ms: "maxSteps (state ?m3) = maxSteps (state m)" using k by (simp add: keeps_def)
    have "stepsExecuted (state ?m3) \<le>
        stepsExecuted (state m) + int (nat (\<lfloor>maxRetries cfg\<rfloor> + 1))"
      using k by (simp add: keeps_def)
    then have "stepsExecuted (state ?m3) \<le> stepsExecuted (state m) + (\<lfloor>maxRetries cfg\<rfloor> + 1)"
      using F by simp
    then have "real_of_int (stepsExecuted (state ?m3)) \<le>
        real_of_int (stepsExecuted (state m) + (\<lfloor>maxRetries cfg\<rfloor> + 1))"
      by (simp only: of_int_le_iff)
    then have st: "real_of_int (stepsExecuted (state ?m3)) <
        maxSteps (state ?m3) + of_int \<lfloor>maxRetries cfg\<rfloor> + 1"
      using False ms by simp
    show ?thesis
    proof (cases "task_status (tasks (state ?m3) ! i) = TaskFailed \<and> \<not> autonomousMode cfg")
      case True
      have eq: "task_loop cfg h (i # rest) m =
          set_status Failed
            (log_entry LogError
               (''Task '' @ show_nat (task_id (tasks (state ?m3) ! i)) @
                '' failed. Stopping non-autonomous execution.'') ?m3)"
        by (simp only: task_loop.simps Let_def if_not_P[OF False] if_P[OF True])
      show ?thesis unfolding eq using q3 ms st by (simp add: quiet_def)
    next
      case stop: False
      have ih: "maxSteps (state (task_loop cfg h rest ?m3)) = maxSteps (state ?m3) \<and>
        real_of_int (stepsExecuted (state (task_loop cfg h rest ?m3))) <
          maxSteps (state ?m3) + of_int \<lfloor>maxRetries cfg\<rfloor> + 1 \<and>
        list_all (\<lambda>s. status s \<noteq> Paused) (emitted (task_loop cfg h rest ?m3)) \<and>
        (status (state (task_loop cfg h rest ?m3)) = Paused \<longrightarrow>
           maxSteps (state ?m3) \<le> real_of_int (stepsExecuted (state (task_loop cfg h rest ?m3))))"
        by (rule Cons.IH[OF q3 st])
      have eq: "task_loop cfg h (i # rest) m = task_loop cfg h rest ?m3"
        by (simp only: task_loop.simps Let_def if_not_P[OF False] if_not_P[OF stop])
      show ?thesis
        unfolding eq using ih unfolding ms by blast
    qed
  qed
qed

lemma finish_proj [simp]:
  "emitted (finish h m) = emitted m"
  "stepsExecuted (state (finish h m)) = stepsExecuted (state m)"
  "maxSteps (state (finish h m)) = maxSteps (state m)"
  "run_id (state (finish h m)) = run_id (state m)"
  "autonomous (state (finish h m)) = autonomous (state m)"
  "tasks (state (finish h m)) = tasks (state m)"
  by (simp_all add: finish_def Let_def)

lemma finish_status:
  "status (state (finish h m)) =
     (if list_all (\<lambda>t. task_status t = TaskDone) (tasks (state m)) then Completed
      else if list_ex (\<lambda>t. task_status t = TaskFailed) (tasks (state m)) then Failed
      else status (state m))"
  by (simp add: finish_def Let_def)

lemma runAgent_shape:
  assumes "planResponse h = Inr plan"
  shows "\<exists>m2. planned_machine h g config fid mf plan m2"
proof -
  define sid where "sid = (case fid of Some v \<Rightarrow> v | None \<Rightarrow> generatedId h)"
  define m0 where "m0 = emit \<lparr>state = \<lparr>run_id = sid, goal = g, tasks = [], currentTask = 0,
      log = [], status = Planning, stepsExecuted = 0,
      maxSteps = cfg_maxSteps (finalConfig config),
      autonomous = autonomousMode (finalConfig config)\<rparr>,
      emitted = [], memory = mf, ticks = 0\<rparr>"
  define m1 where "m1 = emit (remember h MemGoal g None (Some sid)
      (with_memory (\<lambda>now. addGoal now g sid) h
         (log_entry LogInfo (''Starting agent with goal: '' @ g) m0)))"
  define m2 where "m2 = emit (remember h MemDecision
      (''Planned '' @ show_nat (length (planTasks plan)) @ '' tasks for goal'') None (Some sid)
      (log_entry LogInfo (''Planned '' @ show_nat (length (planTasks plan)) @ '' tasks'')
         (m1\<lparr>state := (state m1)\<lparr>tasks := planTasks plan\<rparr>\<rparr>)))"
  have run: "runAgent h g config fid mf =
      emit (finish h (task_loop (finalConfig config) h [0..<length (planTasks plan)] m2))"
    by (simp add: runAgent_def Let_def assms m2_def m1_def m0_def sid_def)
  have s0: "state m0 = \<lparr>run_id = sid, goal = g, tasks = [], currentTask = 0,
      log = [], status = Planning, stepsExecuted = 0,
      maxSteps = cfg_maxSteps (finalConfig config),
      autonomous = autonomousMode (finalConfig config)\<rparr>"
    and e0: "emitted m0 = [\<lparr>run_id = sid, goal = g, tasks = [], currentTask = 0,
      log = [], status = Planning, stepsExecuted = 0,
      maxSteps = cfg_maxSteps (finalConfig config),
      autonomous = autonomousMode (finalConfig config)\<rparr>]"
    by (simp_all add: m0_def emit_def)
  have p1: "status (state m1) = Planning" "stepsExecuted (state m1) = 0"
    "maxSteps (state m1) = cfg_maxSteps (finalConfig config)" "run_id (state m1) = sid"
    "autonomous (state m1) = autonomousMode (finalConfig config)"
    "list_all (\<lambda>s. status s = Planning) (emitted m1)"
    by (simp_all add: m1_def s0 e0)
  have p2: "tasks (state m2) = planTasks plan" "stepsExecuted (state m2) = 0"
    "maxSteps (state m2) = cfg_maxSteps (finalConfig config)" "status (state m2) = Planning"
    "run_id (state m2) = sid" "autonomous (state m2) = autonomousMode (finalConfig config)"
    "list_all (\<lambda>s. status s = Planning) (emitted m2)"
    using p1 by (simp_all add: m2_def)
  have "planned_machine h g config fid mf plan m2"
    unfolding planned_machine_def sid_def[symmetric]
    using run p2 by blast
  then show ?thesis ..
qed

lemma runAgent_plan_throws:
  assumes "planResponse h = Inl msg"
  shows "status (state (runAgent h g config fid mf)) = Failed"
    and "tasks (state (runAgent h g config fid mf)) = []"
    and "list_all (\<lambda>s. status s \<noteq> Paused) (emitted (runAgent h g config fid mf))"
    and "run_id (state (runAgent h g config fid mf)) =
           (case fid of Some v \<Rightarrow> v | None \<Rightarrow> generatedId h)"
    and "autonomous (state (runAgent h g config fid mf)) = autonomousMode (finalConfig config)"
  by (simp_all add: runAgent_def Let_def assms emit_def)

lemma reflect_fst: "fst (reflectOnTask h i response m) = verdict_of h response"
  by (simp add: reflectOnTask_def verdict_of_def split: option.splits)

lemma exec_fst: "fst (executeTaskWithTools h i k m) = exec_result (executor h i k)"
  by (simp add: executeTaskWithTools_def exec_result_def split: ExecOutcome.splits)

lemma attempt_throw:
  assumes "exec_result (executor h i k) = Inl msg"
  shows "attempt cfg h i k res m =
           Again res (catch_block cfg i (k + 1) msg (snd (executeTaskWithTools h i k m)))"
proof -
  obtain x m1 where ex: "executeTaskWithTools h i k m = (x, m1)"
    by (cases "executeTaskWithTools h i k m")
  have "x = Inl msg" using exec_fst[of h i k m] ex assms by simp
  then show ?thesis using ex by (simp add: attempt_def)
qed

lemma attempt_judged:
  assumes "exec_result (executor h i k) = Inr t" and "reflectionEnabled cfg"
    and "reflectResponse h i k = Inr response"
  shows "\<exists>m4. attempt cfg h i k res m = judge cfg i k t (verdict_of h response) m4 \<and>
              keeps 1 i m m4 \<and> stepsExecuted (state m4) = stepsExecuted (state m) + 1 \<and>
              tasks (state m4) = tasks (state m)"
proof -
  obtain x m1 where ex: "executeTaskWithTools h i k m = (x, m1)"
    by (cases "executeTaskWithTools h i k m")
  have x: "x = Inr t" using exec_fst[of h i k m] ex assms(1) by simp
  have m1: "m1 = snd (executeTaskWithTools h i k m)" using ex by simp
  let ?m3 = "emit (set_status Reflecting (after_execute i t m1))"
  obtain r m4 where rm: "reflectOnTask h i response ?m3 = (r, m4)"
    by (cases "reflectOnTask h i response ?m3")
  have r: "r = verdict_of h response" using reflect_fst[of h i response ?m3] rm by simp
  have m4: "m4 = snd (reflectOnTask h i response ?m3)" using rm by simp
  have k1: "keeps 0 i m m1" unfolding m1 by (rule keeps_exec)
  have k2: "keeps (0 + 1) i m (after_execute i t m1)"
    by (rule keeps_trans[OF k1 keeps_after_execute])
  have k3: "keeps (0 + 1 + 0) i m ?m3"
    by (rule keeps_trans[OF k2 keeps_reflecting])
  have "keeps 0 i ?m3 m4" unfolding m4 by (rule keeps_state_eq) simp_all
  then have "keeps (0 + 1 + 0 + 0) i m m4" by (rule keeps_trans[OF k3])
  then have k4: "keeps 1 i m m4" by simp
  have st: "stepsExecuted (state m4) = stepsExecuted (state m) + 1"
    unfolding m4 m1 by simp
  have ts: "tasks (state m4) = tasks (state m)"
    unfolding m4 m1 by simp
  have "attempt cfg h i k res m = judge cfg i k t (verdict_of h response) m4"
    using ex x assms(2,3) rm r by (simp add: attempt_def reflect_stage_def Let_def)
  then show ?thesis using k4 st ts by blast
qed

lemma attempt_reflect_throws:
  assumes "exec_result (executor h i k) = Inr t" and "reflectionEnabled cfg"
    and "reflectResponse h i k = Inl msg"
  shows "\<exists>m3. attempt cfg h i k res m = Again t (catch_block cfg i (k + 1) msg m3) \<and>
              tasks (state m3) = tasks (state m)"
proof -
  obtain x m1 where ex: "executeTaskWithTools h i k m = (x, m1)"
    by (cases "executeTaskWithTools h i k m")
  have x: "x = Inr t" using exec_fst[of h i k m] ex assms(1) by simp
  have m1: "m1 = snd (executeTaskWithTools h i k m)" using ex by simp
  let ?m3 = "emit (set_status Reflecting (after_execute i t m1))"
  have "attempt cfg h i k res m = Again t (catch_block cfg i (k + 1) msg ?m3)"
    using ex x assms(2,3) by (simp add: attempt_def reflect_stage_def Let_def)
  moreover have "tasks (state ?m3) = tasks (state m)" unfolding m1 by simp
  ultimately show ?thesis by blast
qed

lemma attempt_unreflected:
  assumes "exec_result (executor h i k) = Inr t" and "\<not> reflectionEnabled cfg"
  shows "\<exists>m2. attempt cfg h i k res m =
                 Break t (update_task i (\<lambda>t. t\<lparr>task_status := TaskDone\<rparr>) m2) \<and>
              tasks (state m2) = tasks (state m) \<and>
              stepsExecuted (state m2) = stepsExecuted (state m) + 1"
proof -
  obtain x m1 where ex: "executeTaskWithTools h i k m = (x, m1)"
    by (cases "executeTaskWithTools h i k m")
  have x: "x = Inr t" using exec_fst[of h i k m] ex assms(1) by simp
  have m1: "m1 = snd (executeTaskWithTools h i k m)" using ex by simp
  have "attempt cfg h i k res m =
      Break t (update_task i (\<lambda>t. t\<lparr>task_status := TaskDone\<rparr>) (after_execute i t m1))"
    using ex x assms(2) by (simp add: attempt_def Let_def)
  moreover have "tasks (state (after_execute i t m1)) = tasks (state m)" unfolding m1 by simp
  moreover have "stepsExecuted (state (after_execute i t m1)) = stepsExecuted (state m) + 1"
    unfolding m1 by simp
  ultimately show ?thesis by blast
qed

lemma judge_break:
  assumes "\<not> (shouldRetry r \<and> real k < maxRetries cfg)"
  shows "\<exists>m'. judge cfg i k t r m = Break t m' \<and> keeps 0 i m m' \<and>
              stepsExecuted (state m') = stepsExecuted (state m) \<and>
              (i < length (tasks (state m)) \<longrightarrow>
                 task_status (tasks (state m') ! i) =
                   (if success r then TaskDone else TaskFailed))"
proof -
  let ?m5 = "emit (log_entry LogReflection
               (''Reflection: '' @ analysis r @ '' (confidence: '' @ show_int (confidence r) @ ''%)'')
               (update_task i (\<lambda>t. t\<lparr>reflection := Some r\<rparr>) m))"
  let ?m' = "update_task i
               (\<lambda>t. t\<lparr>task_status := (if success r then TaskDone else TaskFailed)\<rparr>) ?m5"
  have j: "judge cfg i k t r m = Break t ?m'"
    by (simp only: judge_def Let_def if_not_P[OF assms])
  have "keeps 0 i m (pass_machine (judge cfg i k t r m))" by (rule keeps_judge)
  then have k: "keeps 0 i m ?m'" unfolding j by (simp add: pass_machine_def)
  have "stepsExecuted (state ?m') = stepsExecuted (state m)" by simp
  moreover have "i < length (tasks (state m)) \<longrightarrow>
      task_status (tasks (state ?m') ! i) = (if success r then TaskDone else TaskFailed)"
    by simp
  ultimately show ?thesis using j k by blast
qed

lemma judge_again:
  assumes "shouldRetry r" and "real k < maxRetries cfg"
  shows "\<exists>m'. judge cfg i k t r m = Again t m' \<and> keeps 0 i m m' \<and>
              stepsExecuted (state m') = stepsExecuted (state m) \<and>
              task_status (tasks (state m') ! i) = task_status (tasks (state m) ! i)"
proof -
  have c: "shouldRetry r \<and> real k < maxRetries cfg" using assms by simp
  let ?m5 = "emit (log_entry LogReflection
               (''Reflection: '' @ analysis r @ '' (confidence: '' @ show_int (confidence r) @ ''%)'')
               (update_task i (\<lambda>t. t\<lparr>reflection := Some r\<rparr>) m))"
  let ?m' = "log_entry LogWarning
               (''Retrying task '' @ show_nat (task_id (tasks (state ?m5) ! i)) @
                '' based on reflection'') ?m5"
  have j: "judge cfg i k t r m = Again t ?m'"
    by (simp only: judge_def Let_def if_P[OF c])
  have "keeps 0 i m (pass_machine (judge cfg i k t r m))" by (rule keeps_judge)
  then have k: "keeps 0 i m ?m'" unfolding j by (simp add: pass_machine_def)
  then have s: "stepsExecuted (state ?m') = stepsExecuted (state m)" by (simp add: keeps_def)
  have ts: "task_status (tasks (state ?m') ! i) = task_status (tasks (state m) ! i)"
    by (simp add: nth_update_field)
  show ?thesis using j k s ts by blast
qed

lemma retry_loop_settles:
  assumes "real k \<le> maxRetries cfg" and "exec_result (executor h i k) = Inr t"
    and "reflectionEnabled cfg" and "reflectResponse h i k = Inr response"
    and "\<not> (shouldRetry (verdict_of h response) \<and> real k < maxRetries cfg)"
    and "i < length (tasks (state m))"
  shows "\<exists>m'. retry_loop cfg h i k res m = (t, m') \<and> keeps 1 i m m' \<and>
              stepsExecuted (state m') = stepsExecuted (state m) + 1 \<and>
              task_status (tasks (state m') ! i) =
                (if success (verdict_of h response) then TaskDone else TaskFailed)"
proof -
  obtain m4 where a: "attempt cfg h i k res m = judge cfg i k t (verdict_of h response) m4"
    and k4: "keeps 1 i m m4" and s4: "stepsExecuted (state m4) = stepsExecuted (state m) + 1"
    and t4: "tasks (state m4) = tasks (state m)"
    using attempt_judged[OF assms(2,3,4)] by blast
  obtain m' where j: "judge cfg i k t (verdict_of h response) m4 = Break t m'"
    and k': "keeps 0 i m4 m'" and s': "stepsExecuted (state m') = stepsExecuted (state m4)"
    and st: "i < length (tasks (state m4)) \<longrightarrow>
               task_status (tasks (state m') ! i) =
                 (if success (verdict_of h response) then TaskDone else TaskFailed)"
    using judge_break[OF assms(5)] by blast
  have "retry_loop cfg h i k res m = (t, m')"
    using a j by (simp add: retry_loop_break[OF assms(1)])
  moreover have "keeps (1 + 0) i m m'" by (rule keeps_trans[OF k4 k'])
  ultimately show ?thesis using s' s4 st t4 assms(6) by auto
qed

lemma retry_loop_retries:
  assumes "real k < maxRetries cfg" and "exec_result (executor h i k) = Inr t"
    and "reflectionEnabled cfg" and "reflectResponse h i k = Inr response"
    and "shouldRetry (verdict_of h response)"
  shows "\<exists>m'. retry_loop cfg h i k res m = retry_loop cfg h i (k + 1) t m' \<and> keeps 1 i m m' \<and>
              stepsExecuted (state m') = stepsExecuted (state m) + 1 \<and>
              task_status (tasks (state m') ! i) = task_status (tasks (state m) ! i)"
proof -
  obtain m4 where a: "attempt cfg h i k res m = judge cfg i k t (verdict_of h response) m4"
    and k4: "keeps 1 i m m4" and s4: "stepsExecuted (state m4) = stepsExecuted (state m) + 1"
    and t4: "tasks (state m4) = tasks (state m)"
    using attempt_judged[OF assms(2,3,4)] by blast
  obtain m' where j: "judge cfg i k t (verdict_of h response) m4 = Again t m'"
    and k': "keeps 0 i m4 m'" and s': "stepsExecuted (state m') = stepsExecuted (state m4)"
    and t': "task_status (tasks (state m') ! i) = task_status (tasks (state m4) ! i)"
    using judge_again[OF assms(5,1)] by blast
  have le: "real k \<le> maxRetries cfg" using assms(1) by simp
  have "retry_loop cfg h i k res m = retry_loop cfg h i (k + 1) t m'"
    using a j by (simp add: retry_loop_again[OF le])
  moreover have "keeps (1 + 0) i m m'" by (rule keeps_trans[OF k4 k'])
  ultimately show ?thesis using s' s4 t' t4 by auto
qed

lemma settled_catch:
  assumes "i < length (tasks (state m1))" and "tasks (state m1) = tasks (state m)"
  shows "settled cfg i k m (Again r (catch_block cfg i (k + 1) msg m1))"
proof (cases "real (k + 1) > maxRetries cfg")
  case True
  then have "task_status (tasks (state (catch_block cfg i (k + 1) msg m1)) ! i) = TaskFailed"
    using assms(1) by simp
  then show ?thesis by (simp add: settled_def)
next
  case False
  then have "tasks (state (catch_block cfg i (k + 1) msg m1)) = tasks (state m)"
    using assms(2) by simp
  moreover have "real (k + 1) \<le> maxRetries cfg" using False by simp
  ultimately show ?thesis by (simp add: settled_def)
qed

lemma settled_judge:
  assumes "i < length (tasks (state m4))" and "tasks (state m4) = tasks (state m)"
  shows "settled cfg i k m (judge cfg i k t r m4)"
proof (cases "shouldRetry r \<and> real k < maxRetries cfg")
  case True
  then obtain m' where j: "judge cfg i k t r m4 = Again t m'"
    and ts: "task_status (tasks (state m') ! i) = task_status (tasks (state m4) ! i)"
    using judge_again[of r k cfg i t m4] by blast
  have "whole (maxRetries cfg) \<longrightarrow> real (k + 1) \<le> maxRetries cfg"
    using True whole_succ_le by blast
  then show ?thesis unfolding j using ts assms(2) by (simp add: settled_def)
next
  case False
  obtain m' where "judge cfg i k t r m4 = Break t m'"
    and "i < length (tasks (state m4)) \<longrightarrow>
           task_status (tasks (state m') ! i) = (if success r then TaskDone else TaskFailed)"
    using judge_break[OF False, of i t m4] by blast
  then show ?thesis using assms(1) by (simp add: settled_def)
qed

lemma attempt_settled:
  assumes i: "i < length (tasks (state m))"
  shows "settled cfg i k m (attempt cfg h i k res m)"
proof (cases "exec_result (executor h i k)")
  case (Inl msg)
  have "i < length (tasks (state (snd (executeTaskWithTools h i k m))))" using i by simp
  moreover have "tasks (state (snd (executeTaskWithTools h i k m))) = tasks (state m)" by simp
  ultimately show ?thesis unfolding attempt_throw[OF Inl] by (rule settled_catch)
next
  case (Inr t)
  show ?thesis
  proof (cases "reflectionEnabled cfg")
    case False
    obtain m2 where a: "attempt cfg h i k res m =
        Break t (update_task i (\<lambda>t. t\<lparr>task_status := TaskDone\<rparr>) m2)"
      and t2: "tasks (state m2) = tasks (state m)"
      using attempt_unreflected[OF Inr False] by blast
    show ?thesis unfolding a using i t2 by (simp add: settled_def)
  next
    case True
    show ?thesis
    proof (cases "reflectResponse h i k")
      case (Inl msg)
      obtain m3 where a: "attempt cfg h i k res m = Again t (catch_block cfg i (k + 1) msg m3)"
        and t3: "tasks (state m3) = tasks (state m)"
        using attempt_reflect_throws[OF Inr True Inl] by blast
      have "i < length (tasks (state m3))" using i t3 by simp
      then show ?thesis unfolding a using t3 by (rule settled_catch)
    next
      case r: (Inr response)
      obtain m4 where a: "attempt cfg h i k res m = judge cfg i k t (verdict_of h response) m4"
        and t4: "tasks (state m4) = tasks (state m)"
        using attempt_judged[OF Inr True r] by blast
      have "i < length (tasks (state m4))" using i t4 by simp
      then show ?thesis unfolding a using t4 by (rule settled_judge)
    qed
  qed
qed

lemma retry_loop_settled:
  "i < length (tasks (state m)) \<Longrightarrow>
   (task_status (tasks (state (snd (retry_loop cfg h i k res m))) ! i) = TaskDone \<or>
    task_status (tasks (state (snd (retry_loop cfg h i k res m))) ! i) = TaskFailed \<or>
    task_status (tasks (state (snd (retry_loop cfg h i k res m))) ! i) =
      task_status (tasks (state m) ! i)) \<and>
   (whole (maxRetries cfg) \<and> real k \<le> maxRetries cfg \<longrightarrow>
      task_status (tasks (state (snd (retry_loop cfg h i k res m))) ! i) = TaskDone \<or>
      task_status (tasks (state (snd (retry_loop cfg h i k res m))) ! i) = TaskFailed)"
proof (induction cfg h i k res m rule: retry_loop.induct)
  case (1 cfg h i retries res m)
  show ?case
  proof (cases "real retries \<le> maxRetries cfg")
    case False
    show ?thesis unfolding retry_loop_exit[OF False] using False by simp
  next
    case True
    have s: "settled cfg i retries m (attempt cfg h i retries res m)"
      by (rule attempt_settled[OF "1.prems"])
    have ka: "keeps 1 i m (pass_machine (attempt cfg h i retries res m))"
      by (rule keeps_attempt)
    show ?thesis
    proof (cases "attempt cfg h i retries res m")
      case (Break r m')
      have df: "task_status (tasks (state m') ! i) = TaskDone \<or>
            task_status (tasks (state m') ! i) = TaskFailed"
        using s Break by (simp add: settled_def)
      have eq: "snd (retry_loop cfg h i retries res m) = m'"
        by (simp add: retry_loop_break[OF True Break])
      show ?thesis unfolding eq using df by blast
    next
      case (Again r m')
      have len: "i < length (tasks (state m'))"
        using ka Again "1.prems" by (simp add: pass_machine_def keeps_def)
      have un: "retry_loop cfg h i retries res m = retry_loop cfg h i (retries + 1) r m'"
        by (rule retry_loop_again[OF True Again])
      let ?s' = "task_status (tasks (state (snd (retry_loop cfg h i (retries + 1) r m'))) ! i)"
      have ih: "(?s' = TaskDone \<or> ?s' = TaskFailed \<or> ?s' = task_status (tasks (state m') ! i)) \<and>
          (whole (maxRetries cfg) \<and> real (retries + 1) \<le> maxRetries cfg \<longrightarrow>
             ?s' = TaskDone \<or> ?s' = TaskFailed)"
        by (rule "1.IH"[OF True Again len])
      have st: "task_status (tasks (state m') ! i) = TaskFailed \<or>
          (task_status (tasks (state m') ! i) = task_status (tasks (state m) ! i) \<and>
           (whole (maxRetries cfg) \<longrightarrow> real (retries + 1) \<le> maxRetries cfg))"
        using s Again by (simp add: settled_def)
      show ?thesis unfolding un using ih st by metis
    qed
  qed
qed

lemma start_task_proj [simp]:
  "tasks (state (start_task i m)) =
     (tasks (state m))[i := (tasks (state m) ! i)\<lparr>task_status := TaskRunning\<rparr>]"
  "status (state (start_task i m)) = Executing"
  "stepsExecuted (state (start_task i m)) = stepsExecuted (state m)"
  "maxSteps (state (start_task i m)) = maxSteps (state m)"
  "emitted (start_task i m) = emitted m @ [state (start_task i m)]"
  by (simp_all add: start_task_def)

lemma complete_task_proj [simp]:
  "tasks (state (complete_task h i res m)) =
     (tasks (state m))[i := (tasks (state m) ! i)\<lparr>result := Some res\<rparr>]"
  "status (state (complete_task h i res m)) = status (state m)"
  "stepsExecuted (state (complete_task h i res m)) = stepsExecuted (state m)"
  "maxSteps (state (complete_task h i res m)) = maxSteps (state m)"
  "emitted (complete_task h i res m) = emitted m @ [state (complete_task h i res m)]"
  by (simp_all add: complete_task_def)

lemma run_task_settled:
  assumes "i < length (tasks (state m))"
  shows "task_status (tasks (state (run_task cfg h i m)) ! i) = TaskDone \<or>
         task_status (tasks (state (run_task cfg h i m)) ! i) = TaskFailed \<or>
         task_status (tasks (state (run_task cfg h i m)) ! i) = TaskRunning"
    and "whole (maxRetries cfg) \<Longrightarrow> 0 \<le> maxRetries cfg \<Longrightarrow>
         task_status (tasks (state (run_task cfg h i m)) ! i) = TaskDone \<or>
         task_status (tasks (state (run_task cfg h i m)) ! i) = TaskFailed"
proof -
  obtain res m2 where rl: "retry_loop cfg h i 0 [] (start_task i m) = (res, m2)"
    by (cases "retry_loop cfg h i 0 [] (start_task i m)")
  have len: "i < length (tasks (state (start_task i m)))" using assms by simp
  have run0: "task_status (tasks (state (start_task i m)) ! i) = TaskRunning"
    using assms by simp
  let ?s = "task_status (tasks (state (snd (retry_loop cfg h i 0 [] (start_task i m)))) ! i)"
  have o: "(?s = TaskDone \<or> ?s = TaskFailed \<or>
            ?s = task_status (tasks (state (start_task i m)) ! i)) \<and>
      (whole (maxRetries cfg) \<and> real 0 \<le> maxRetries cfg \<longrightarrow> ?s = TaskDone \<or> ?s = TaskFailed)"
    by (rule retry_loop_settled[OF len])
  have "keeps (nat (\<lfloor>maxRetries cfg\<rfloor> + 1 - int 0)) i (start_task i m)
          (snd (retry_loop cfg h i 0 [] (start_task i m)))"
    by (rule keeps_retry_loop)
  then have len2: "i < length (tasks (state m2))" using rl len by (simp add: keeps_def)
  have same: "task_status (tasks (state (run_task cfg h i m)) ! i) = ?s"
    using rl len2 by (simp add: run_task_def)
  show "task_status (tasks (state (run_task cfg h i m)) ! i) = TaskDone \<or>
         task_status (tasks (state (run_task cfg h i m)) ! i) = TaskFailed \<or>
         task_status (tasks (state (run_task cfg h i m)) ! i) = TaskRunning"
    unfolding same using o run0 by metis
  show "task_status (tasks (state (run_task cfg h i m)) ! i) = TaskDone \<or>
         task_status (tasks (state (run_task cfg h i m)) ! i) = TaskFailed"
    if "whole (maxRetries cfg)" and "0 \<le> maxRetries cfg"
    unfolding same using o that by simp
qed

lemma run_task_no_failure_without_attempts:
  assumes "maxRetries cfg < 0" and "i < length (tasks (state m))"
  shows "task_status (tasks (state (run_task cfg h i m)) ! i) = TaskRunning"
proof -
  have "\<not> real 0 \<le> maxRetries cfg" using assms(1) by simp
  then have "retry_loop cfg h i 0 [] (start_task i m) = ([], start_task i m)"
    by (rule retry_loop_exit)
  then show ?thesis using assms(2) by (simp add: run_task_def)
qed

lemma task_loop_step:
  "task_loop cfg h (i # rest) m =
     (if real_of_int (stepsExecuted (state m)) \<ge> maxSteps (state m) then
        set_status Paused
          (log_entry LogWarning
             (''Maximum steps ('' @ show_number h (maxSteps (state m)) @
              '') reached. Stopping execution.'') m)
      else if task_status (tasks (state (run_task cfg h i m)) ! i) = TaskFailed \<and>
              \<not> autonomousMode cfg
        then set_status Failed
               (log_entry LogError
                  (''Task '' @ show_nat (task_id (tasks (state (run_task cfg h i m)) ! i)) @
                   '' failed. Stopping non-autonomous execution.'') (run_task cfg h i m))
        else task_loop cfg h rest (run_task cfg h i m))"
  by (simp only: task_loop.simps Let_def)

lemma halted_cong:
  assumes "halted cfg n m" and "tasks (state m') = tasks (state m)"
  shows "halted cfg n m'"
  using assms(1) unfolding halted_def assms(2) .

lemma halted_no_failure:
  assumes "length (tasks (state m)) = n"
    and "\<And>j. j < n \<Longrightarrow> task_status (tasks (state m) ! j) \<noteq> TaskFailed"
  shows "halted cfg n m"
  unfolding halted_def
proof (intro conjI allI impI)
  show "length (tasks (state m)) = n" by (rule assms(1))
next
  fix i j assume "i < n" and "task_status (tasks (state m) ! i) = TaskFailed"
  then show "task_status (tasks (state m) ! j) = TaskDone \<or>
             task_status (tasks (state m) ! j) = TaskRunning" using assms(2) by blast
next
  fix i j assume "i < n" and "task_status (tasks (state m) ! i) = TaskFailed"
  then show "task_status (tasks (state m) ! j) = TaskDone" using assms(2) by blast
next
  fix i j assume "i < n" and "task_status (tasks (state m) ! i) = TaskFailed"
  then show "task_status (tasks (state m) ! j) = TaskPending" using assms(2) by blast
qed

lemma task_loop_halts:
  assumes na: "\<not> autonomousMode cfg"
  shows "idxs = [a..<n] \<Longrightarrow> length (tasks (state m)) = n \<Longrightarrow>
     (\<forall>j<a. (task_status (tasks (state m) ! j) = TaskDone \<or>
             task_status (tasks (state m) ! j) = TaskRunning) \<and>
            (whole (maxRetries cfg) \<and> 0 \<le> maxRetries cfg \<longrightarrow>
               task_status (tasks (state m) ! j) = TaskDone)) \<Longrightarrow>
     (\<forall>j. a \<le> j \<and> j < n \<longrightarrow> task_status (tasks (state m) ! j) = TaskPending) \<Longrightarrow>
     halted cfg n (task_loop cfg h idxs m)"
proof (induction idxs arbitrary: a m)
  case Nil
  have na: "n \<le> a" using Nil.prems(1)[symmetric] by auto
  have "task_status (tasks (state m) ! j) \<noteq> TaskFailed" if "j < n" for j
  proof -
    have "j < a" using that na by simp
    then have "task_status (tasks (state m) ! j) = TaskDone \<or>
               task_status (tasks (state m) ! j) = TaskRunning"
      using Nil.prems(3) by blast
    then show ?thesis by auto
  qed
  then show ?case using Nil.prems(2) by (simp add: halted_no_failure)
next
  case (Cons i rest)
  have an: "a < n" and ia: "i = a" and rest: "rest = [Suc a..<n]"
    using Cons.prems(1)[symmetric] by (auto simp: upt_eq_Cons_conv)
  have before: "(task_status (tasks (state m) ! j) = TaskDone \<or>
             task_status (tasks (state m) ! j) = TaskRunning) \<and>
            (whole (maxRetries cfg) \<and> 0 \<le> maxRetries cfg \<longrightarrow>
               task_status (tasks (state m) ! j) = TaskDone)" if "j < a" for j
    using Cons.prems(3) that by blast
  have nofail: "task_status (tasks (state m) ! j) \<noteq> TaskFailed" if "j < n" for j
  proof (cases "j < a")
    case True
    then show ?thesis using before[of j] by auto
  next
    case False
    then have "task_status (tasks (state m) ! j) = TaskPending"
      using Cons.prems(4) that by simp
    then show ?thesis by simp
  qed
  show ?case
  proof (cases "real_of_int (stepsExecuted (state m)) \<ge> maxSteps (state m)")
    case True
    have "halted cfg n m" using Cons.prems(2) nofail by (rule halted_no_failure)
    then have "halted cfg n (set_status Paused
          (log_entry LogWarning
             (''Maximum steps ('' @ show_number h (maxSteps (state m)) @
              '') reached. Stopping execution.'') m))"
      by (rule halted_cong) simp
    then show ?thesis by (simp only: task_loop_step if_P[OF True])
  next
    case False
    let ?m3 = "run_task cfg h i m"
    have k: "keeps (nat (\<lfloor>maxRetries cfg\<rfloor> + 1)) i m ?m3" by (rule keeps_run_task)
    have len3: "length (tasks (state ?m3)) = n" using k Cons.prems(2) by (simp add: keeps_def)
    have other: "tasks (state ?m3) ! j = tasks (state m) ! j" if "j \<noteq> i" for j
      using k that by (simp add: keeps_def)
    have ilen: "i < length (tasks (state m))" using an ia Cons.prems(2) by simp
    show ?thesis
    proof (cases "task_status (tasks (state ?m3) ! i) = TaskFailed \<and> \<not> autonomousMode cfg")
      case True
      have R: "0 \<le> maxRetries cfg"
      proof (rule ccontr)
        assume "\<not> 0 \<le> maxRetries cfg"
        then have "maxRetries cfg < 0" by simp
        then have "task_status (tasks (state ?m3) ! i) = TaskRunning"
          using ilen by (rule run_task_no_failure_without_attempts)
        then show False using True by simp
      qed
      have only: "i' = i"
        if i': "i' < n" and f: "task_status (tasks (state ?m3) ! i') = TaskFailed" for i'
      proof (rule ccontr)
        assume ne: "i' \<noteq> i"
        then have "task_status (tasks (state m) ! i') = TaskFailed" using other f by simp
        then show False using nofail[OF i'] by simp
      qed
      have "halted cfg n ?m3"
        unfolding halted_def
      proof (intro conjI allI impI)
        show "length (tasks (state ?m3)) = n" by (rule len3)
      next
        fix i' j
        assume i': "i' < n" and f: "task_status (tasks (state ?m3) ! i') = TaskFailed"
          and j: "j < i'"
        have "j < a" using only[OF i' f] j ia by simp
        then have "task_status (tasks (state m) ! j) = TaskDone \<or>
             task_status (tasks (state m) ! j) = TaskRunning"
          using before by blast
        moreover have "j \<noteq> i" using \<open>j < a\<close> ia by simp
        ultimately show "task_status (tasks (state ?m3) ! j) = TaskDone \<or>
             task_status (tasks (state ?m3) ! j) = TaskRunning"
          using other by simp
      next
        fix i' j
        assume i': "i' < n" and f: "task_status (tasks (state ?m3) ! i') = TaskFailed"
          and j: "j < i'" and w: "whole (maxRetries cfg)"
        have "j < a" using only[OF i' f] j ia by simp
        then have "task_status (tasks (state m) ! j) = TaskDone"
          using before[of j] w R by blast
        moreover have "j \<noteq> i" using \<open>j < a\<close> ia by simp
        ultimately show "task_status (tasks (state ?m3) ! j) = TaskDone"
          using other by simp
      next
        fix i' j
        assume i': "i' < n" and f: "task_status (tasks (state ?m3) ! i') = TaskFailed"
          and j: "i' < j \<and> j < n"
        have "i' = i" by (rule only[OF i' f])
        then have "a \<le> j \<and> j < n" "j \<noteq> i" using j ia by simp_all
        then show "task_status (tasks (state ?m3) ! j) = TaskPending"
          using Cons.prems(4) other by simp
      qed
      then have "halted cfg n (set_status Failed
               (log_entry LogError
                  (''Task '' @ show_nat (task_id (tasks (state ?m3) ! i)) @
                   '' failed. Stopping non-autonomous execution.'') ?m3))"
        by (rule halted_cong) simp
      then show ?thesis by (simp only: task_loop_step if_not_P[OF False] if_P[OF True])
    next
      case cont: False
      have nf: "task_status (tasks (state ?m3) ! i) \<noteq> TaskFailed" using cont na by simp
      have inv1: "\<forall>j<Suc a. (task_status (tasks (state ?m3) ! j) = TaskDone \<or>
             task_status (tasks (state ?m3) ! j) = TaskRunning) \<and>
            (whole (maxRetries cfg) \<and> 0 \<le> maxRetries cfg \<longrightarrow>
               task_status (tasks (state ?m3) ! j) = TaskDone)"
      proof (intro allI impI)
        fix j assume j: "j < Suc a"
        show "(task_status (tasks (state ?m3) ! j) = TaskDone \<or>
             task_status (tasks (state ?m3) ! j) = TaskRunning) \<and>
            (whole (maxRetries cfg) \<and> 0 \<le> maxRetries cfg \<longrightarrow>
               task_status (tasks (state ?m3) ! j) = TaskDone)"
        proof (cases "j = i")
          case True
          have "task_status (tasks (state ?m3) ! i) = TaskDone \<or>
                task_status (tasks (state ?m3) ! i) = TaskRunning"
            using run_task_settled(1)[OF ilen, of cfg h] nf by blast
          moreover have "whole (maxRetries cfg) \<and> 0 \<le> maxRetries cfg \<longrightarrow>
              task_status (tasks (state ?m3) ! i) = TaskDone"
            using run_task_settled(2)[OF ilen, of cfg h] nf by blast
          ultimately show ?thesis using True by simp
        next
          case False
          then have "j < a" using j ia by simp
          then show ?thesis using before[of j] other[OF False] by simp
        qed
      qed
      have inv2: "\<forall>j. Suc a \<le> j \<and> j < n \<longrightarrow> task_status (tasks (state ?m3) ! j) = TaskPending"
      proof (intro allI impI)
        fix j assume j: "Suc a \<le> j \<and> j < n"
        then have "j \<noteq> i" "a \<le> j \<and> j < n" using ia by simp_all
        then show "task_status (tasks (state ?m3) ! j) = TaskPending"
          using Cons.prems(4) other by simp
      qed
      have "halted cfg n (task_loop cfg h rest ?m3)"
        by (rule Cons.IH[OF rest len3 inv1 inv2])
      then show ?thesis by (simp only: task_loop_step if_not_P[OF False] if_not_P[OF cont])
    qed
  qed
qed

lemma task_loop_frame:
  "j \<notin> set idxs \<Longrightarrow> tasks (state (task_loop cfg h idxs m)) ! j = tasks (state m) ! j"
proof (induction idxs arbitrary: m)
  case Nil
  show ?case by simp
next
  case (Cons i rest)
  let ?m3 = "run_task cfg h i m"
  have ji: "j \<noteq> i" and jr: "j \<notin> set rest" using Cons.prems by simp_all
  have k: "keeps (nat (\<lfloor>maxRetries cfg\<rfloor> + 1)) i m ?m3" by (rule keeps_run_task)
  have other: "tasks (state ?m3) ! j = tasks (state m) ! j"
    using k ji by (simp add: keeps_def)
  show ?case
  proof (cases "real_of_int (stepsExecuted (state m)) \<ge> maxSteps (state m)")
    case True
    show ?thesis by (simp only: task_loop_step if_P[OF True]) simp
  next
    case False
    show ?thesis
    proof (cases "task_status (tasks (state ?m3) ! i) = TaskFailed \<and> \<not> autonomousMode cfg")
      case True
      show ?thesis
        by (simp only: task_loop_step if_not_P[OF False] if_P[OF True]) (simp add: other)
    next
      case cont: False
      have "tasks (state (task_loop cfg h rest ?m3)) ! j = tasks (state ?m3) ! j"
        by (rule Cons.IH[OF jr])
      then show ?thesis
        by (simp only: task_loop_step if_not_P[OF False] if_not_P[OF cont] other)
    qed
  qed
qed

lemma planTasks_pending:
  "j < length (planTasks plan) \<Longrightarrow> task_status (planTasks plan ! j) = TaskPending"
  by (simp add: planTasks_def case_prod_unfold)

lemma runAgent_halted:
  assumes "\<not> autonomousMode (finalConfig config)"
  shows "halted (finalConfig config) (length (tasks (state (runAgent h g config fid mf))))
           (runAgent h g config fid mf)"
proof (cases "planResponse h")
  case (Inl msg)
  have len0: "length (tasks (state (runAgent h g config fid mf))) = 0"
    using runAgent_plan_throws(2)[OF Inl, of g config fid mf] by simp
  show ?thesis unfolding len0 by (rule halted_no_failure[OF len0]) simp
next
  case (Inr plan)
  obtain m2 where pm: "planned_machine h g config fid mf plan m2"
    using runAgent_shape[OF Inr] by blast
  let ?n = "length (planTasks plan)"
  let ?m' = "task_loop (finalConfig config) h [0..<?n] m2"
  have len: "length (tasks (state m2)) = ?n" using pm by (simp add: planned_machine_def)
  have pend: "\<forall>j. 0 \<le> j \<and> j < ?n \<longrightarrow> task_status (tasks (state m2) ! j) = TaskPending"
    using pm planTasks_pending by (simp add: planned_machine_def)
  have hm: "halted (finalConfig config) ?n ?m'"
    by (rule task_loop_halts[OF assms refl len _ pend]) simp
  have run: "runAgent h g config fid mf = emit (finish h ?m')"
    using pm by (simp add: planned_machine_def)
  have ts: "tasks (state (runAgent h g config fid mf)) = tasks (state ?m')"
    unfolding run by simp
  have hr: "halted (finalConfig config) ?n (runAgent h g config fid mf)"
    by (rule halted_cong[OF hm ts])
  have "length (tasks (state (runAgent h g config fid mf))) = ?n"
    using hr unfolding halted_def by (rule conjunct1)
  then show ?thesis using hr by simp
qed

lemma runAgent_failed_status:
  assumes "i < length (tasks (state (runAgent h g config fid mf)))"
    and "task_status (tasks (state (runAgent h g config fid mf)) ! i) = TaskFailed"
  shows "status (state (runAgent h g config fid mf)) = Failed"
proof (cases "planResponse h")
  case (Inl msg)
  then show ?thesis by (rule runAgent_plan_throws(1))
next
  case (Inr plan)
  obtain m2 where pm: "planned_machine h g config fid mf plan m2"
    using runAgent_shape[OF Inr] by blast
  let ?m' = "task_loop (finalConfig config) h [0..<length (planTasks plan)] m2"
  have run: "runAgent h g config fid mf = emit (finish h ?m')"
    using pm by (simp add: planned_machine_def)
  have i: "i < length (tasks (state ?m'))" and f: "task_status (tasks (state ?m') ! i) = TaskFailed"
    using assms unfolding run by simp_all
  have "\<not> list_all (\<lambda>t. task_status t = TaskDone) (tasks (state ?m'))"
    using i f by (auto simp: list_all_length)
  moreover have "list_ex (\<lambda>t. task_status t = TaskFailed) (tasks (state ?m'))"
    using i f by (auto simp: list_ex_length)
  ultimately show ?thesis unfolding run by (simp add: finish_status)
qed

subsection \<open>Single steps of the loop on given outcomes\<close>

lemma retry_loop_all_throw:
  "\<forall>k. executor h i k = ExecThrows (msgs k) \<Longrightarrow>
     real k \<le> maxRetries cfg \<Longrightarrow> i < length (tasks (state m)) \<Longrightarrow>
     fst (retry_loop cfg h i k res m) = res \<and>
     tasks (state (snd (retry_loop cfg h i k res m))) =
       (tasks (state m))[i := (tasks (state m) ! i)\<lparr>task_status := TaskFailed,
          result := Some (''Failed after '' @ show_nat (nat \<lfloor>maxRetries cfg\<rfloor> + 1) @
                          '' attempts: '' @ msgs (nat \<lfloor>maxRetries cfg\<rfloor>))\<rparr>] \<and>
     emitted (snd (retry_loop cfg h i k res m)) = emitted m \<and>
     stepsExecuted (state (snd (retry_loop cfg h i k res m))) = stepsExecuted (state m) \<and>
     status (state (snd (retry_loop cfg h i k res m))) = status (state m)"
proof (induction cfg h i k res m rule: retry_loop.induct)
  case (1 cfg h i retries res m)
  note thr = "1.prems"(1) and le = "1.prems"(2) and ilen = "1.prems"(3)
  have ex: "exec_result (executor h i retries) = Inl (msgs retries)"
    using thr by (simp add: exec_result_def)
  let ?m1 = "snd (executeTaskWithTools h i retries m)"
  let ?m' = "catch_block cfg i (retries + 1) (msgs retries) ?m1"
  have a: "attempt cfg h i retries res m = Again res ?m'"
    by (rule attempt_throw[OF ex])
  have un: "retry_loop cfg h i retries res m = retry_loop cfg h i (retries + 1) res ?m'"
    by (rule retry_loop_again[OF le a])
  show ?case
  proof (cases "real (retries + 1) \<le> maxRetries cfg")
    case True
    have len: "i < length (tasks (state ?m'))" using ilen True by simp
    have ih: "fst (retry_loop cfg h i (retries + 1) res ?m') = res \<and>
      tasks (state (snd (retry_loop cfg h i (retries + 1) res ?m'))) =
        (tasks (state ?m'))[i := (tasks (state ?m') ! i)\<lparr>task_status := TaskFailed,
           result := Some (''Failed after '' @ show_nat (nat \<lfloor>maxRetries cfg\<rfloor> + 1) @
                           '' attempts: '' @ msgs (nat \<lfloor>maxRetries cfg\<rfloor>))\<rparr>] \<and>
      emitted (snd (retry_loop cfg h i (retries + 1) res ?m')) = emitted ?m' \<and>
      stepsExecuted (state (snd (retry_loop cfg h i (retries + 1) res ?m'))) =
        stepsExecuted (state ?m') \<and>
      status (state (snd (retry_loop cfg h i (retries + 1) res ?m'))) = status (state ?m')"
      by (rule "1.IH"[OF le a thr True len])
    have same: "tasks (state ?m') = tasks (state m)" using True by simp
    show ?thesis unfolding un using ih same by simp
  next
    case False
    have "\<lfloor>maxRetries cfg\<rfloor> = int retries"
    proof (rule floor_unique)
      show "of_int (int retries) \<le> maxRetries cfg" using le by simp
      show "maxRetries cfg < of_int (int retries) + 1" using False by simp
    qed
    then have k: "nat \<lfloor>maxRetries cfg\<rfloor> = retries" by simp
    have out: "retry_loop cfg h i (retries + 1) res ?m' = (res, ?m')"
      using False by (rule retry_loop_exit)
    show ?thesis unfolding un out using False k by simp
  qed
qed

lemma run_task_all_throw:
  assumes thr: "\<forall>k. executor h i k = ExecThrows (msgs k)"
    and R: "0 \<le> maxRetries cfg" and i: "i < length (tasks (state m))"
  shows "task_status (tasks (state (run_task cfg h i m)) ! i) = TaskFailed"
    and "result (tasks (state (run_task cfg h i m)) ! i) = Some []"
    and "result (tasks (state (snd (retry_loop cfg h i 0 [] (start_task i m)))) ! i) =
           Some (''Failed after '' @ show_nat (nat \<lfloor>maxRetries cfg\<rfloor> + 1) @ '' attempts: '' @
                 msgs (nat \<lfloor>maxRetries cfg\<rfloor>))"
    and "emitted (run_task cfg h i m) =
           emitted m @ [state (start_task i m), state (run_task cfg h i m)]"
proof -
  let ?m1 = "start_task i m"
  obtain res m2 where rl: "retry_loop cfg h i 0 [] ?m1 = (res, m2)"
    by (cases "retry_loop cfg h i 0 [] ?m1")
  have le: "real 0 \<le> maxRetries cfg" using R by simp
  have len: "i < length (tasks (state ?m1))" using i by simp
  have L: "fst (retry_loop cfg h i 0 [] ?m1) = [] \<and>
     tasks (state (snd (retry_loop cfg h i 0 [] ?m1))) =
       (tasks (state ?m1))[i := (tasks (state ?m1) ! i)\<lparr>task_status := TaskFailed,
          result := Some (''Failed after '' @ show_nat (nat \<lfloor>maxRetries cfg\<rfloor> + 1) @
                          '' attempts: '' @ msgs (nat \<lfloor>maxRetries cfg\<rfloor>))\<rparr>] \<and>
     emitted (snd (retry_loop cfg h i 0 [] ?m1)) = emitted ?m1 \<and>
     stepsExecuted (state (snd (retry_loop cfg h i 0 [] ?m1))) = stepsExecuted (state ?m1) \<and>
     status (state (snd (retry_loop cfg h i 0 [] ?m1))) = status (state ?m1)"
    by (rule retry_loop_all_throw[OF thr le len])
  have res: "res = []" using L rl by simp
  have t2: "tasks (state m2) =
       (tasks (state ?m1))[i := (tasks (state ?m1) ! i)\<lparr>task_status := TaskFailed,
          result := Some (''Failed after '' @ show_nat (nat \<lfloor>maxRetries cfg\<rfloor> + 1) @
                          '' attempts: '' @ msgs (nat \<lfloor>maxRetries cfg\<rfloor>))\<rparr>]"
    using L rl by simp
  have e2: "emitted m2 = emitted ?m1" using L rl by simp
  have run: "run_task cfg h i m = complete_task h i [] m2"
    using rl res by (simp add: run_task_def)
  show "task_status (tasks (state (run_task cfg h i m)) ! i) = TaskFailed"
    unfolding run using t2 i by simp
  show "result (tasks (state (run_task cfg h i m)) ! i) = Some []"
    unfolding run using t2 i by simp
  show "result (tasks (state (snd (retry_loop cfg h i 0 [] (start_task i m)))) ! i) =
           Some (''Failed after '' @ show_nat (nat \<lfloor>maxRetries cfg\<rfloor> + 1) @ '' attempts: '' @
                 msgs (nat \<lfloor>maxRetries cfg\<rfloor>))"
    using rl t2 i by simp
  show "emitted (run_task cfg h i m) =
           emitted m @ [state (start_task i m), state (run_task cfg h i m)]"
    unfolding run using e2 by simp
qed



lemma task_loop_ids:
  "run_id (state (task_loop cfg h idxs m)) = run_id (state m) \<and>
   autonomous (state (task_loop cfg h idxs m)) = autonomous (state m)"
proof (induction idxs arbitrary: m)
  case Nil
  show ?case by simp
next
  case (Cons i rest)
  let ?m3 = "run_task cfg h i m"
  have k: "keeps (nat (\<lfloor>maxRetries cfg\<rfloor> + 1)) i m ?m3" by (rule keeps_run_task)
  have id3: "run_id (state ?m3) = run_id (state m)" "autonomous (state ?m3) = autonomous (state m)"
    using k by (simp_all add: keeps_def)
  show ?case
  proof (cases "real_of_int (stepsExecuted (state m)) \<ge> maxSteps (state m)")
    case True
    show ?thesis unfolding task_loop_step if_P[OF True] by simp
  next
    case False
    show ?thesis
    proof (cases "task_status (tasks (state ?m3) ! i) = TaskFailed \<and> \<not> autonomousMode cfg")
      case True
      show ?thesis unfolding task_loop_step if_not_P[OF False] if_P[OF True] using id3 by simp
    next
      case cont: False
      show ?thesis unfolding task_loop_step if_not_P[OF False] if_not_P[OF cont]
        using Cons.IH[of ?m3] id3 by simp
    qed
  qed
qed

lemma runAgent_ids:
  "run_id (state (runAgent h g config fid mf)) =
     (case fid of Some v \<Rightarrow> v | None \<Rightarrow> generatedId h) \<and>
   autonomous (state (runAgent h g config fid mf)) = autonomousMode (finalConfig config)"
proof (cases "planResponse h")
  case (Inl msg)
  show ?thesis using runAgent_plan_throws(4,5)[OF Inl, of g config fid mf] by simp
next
  case (Inr plan)
  obtain m2 where pm: "planned_machine h g config fid mf plan m2"
    using runAgent_shape[OF Inr] by blast
  let ?m' = "task_loop (finalConfig config) h [0..<length (planTasks plan)] m2"
  have run: "runAgent h g config fid mf = emit (finish h ?m')"
    using pm by (simp add: planned_machine_def)
  have "run_id (state ?m') = run_id (state m2) \<and> autonomous (state ?m') = autonomous (state m2)"
    by (rule task_loop_ids)
  then show ?thesis unfolding run using pm by (simp add: planned_machine_def)
qed

lemma runAgent_last_emit:
  "emitted (runAgent h g config fid mf) \<noteq> [] \<and>
   last (emitted (runAgent h g config fid mf)) = state (runAgent h g config fid mf)"
  by (simp add: runAgent_def Let_def)

lemma resume_loop_ids:
  "map run_id (fst (resume_loop hosts k gs (results, mf, seen))) =
     map run_id results @ map (\<lambda>j. generatedId (hosts j)) [k..<k + length gs] \<and>
   (list_all autonomous results \<longrightarrow>
      list_all autonomous (fst (resume_loop hosts k gs (results, mf, seen))))"
proof (induction gs arbitrary: k results mf seen)
  case Nil
  show ?case by simp
next
  case (Cons g gs)
  let ?m = "runAgent (hosts k) (goal_text g)
              \<lparr>opt_maxSteps = None, opt_maxRetries = None, opt_autonomousMode = Some True,
               opt_reflectionEnabled = None\<rparr> None mf"
  have ids: "run_id (state ?m) = generatedId (hosts k)" "autonomous (state ?m)"
    using runAgent_ids[of "hosts k" "goal_text g" _ None mf] by (simp_all add: finalConfig_def)
  have step: "resume_loop hosts k (g # gs) (results, mf, seen) =
      resume_loop hosts (k + 1) gs (results @ [state ?m], memory ?m, seen @ emitted ?m)"
    by (simp add: Let_def)
  have "k < k + length (g # gs)" by simp
  then have "[k..<k + length (g # gs)] = k # [Suc k..<k + length (g # gs)]"
    by (rule upt_conv_Cons)
  moreover have "k + length (g # gs) = k + 1 + length gs" "Suc k = k + 1" by simp_all
  ultimately have up: "[k..<k + length (g # gs)] = k # [k + 1..<k + 1 + length gs]"
    by (simp only:)
  show ?case
    unfolding step up
    using Cons.IH[of "k + 1" "results @ [state ?m]" "memory ?m" "seen @ emitted ?m"] ids
    by simp
qed

lemma task_loop_pauses:
  assumes "maxSteps (state m) \<le> real_of_int (stepsExecuted (state m))"
  shows "task_loop cfg h (i # rest) m =
           set_status Paused
             (log_entry LogWarning
                (''Maximum steps ('' @ show_number h (maxSteps (state m)) @
                 '') reached. Stopping execution.'') m)"
proof -
  have c: "real_of_int (stepsExecuted (state m)) \<ge> maxSteps (state m)" using assms by simp
  show ?thesis by (simp only: task_loop_step if_P[OF c])
qed

lemma task_loop_continues:
  assumes "real_of_int (stepsExecuted (state m)) < maxSteps (state m)"
    and "task_status (tasks (state (run_task cfg h i m)) ! i) \<noteq> TaskFailed"
  shows "task_loop cfg h (i # rest) m = task_loop cfg h rest (run_task cfg h i m)"
proof -
  have c: "\<not> real_of_int (stepsExecuted (state m)) \<ge> maxSteps (state m)" using assms(1) by simp
  have d: "\<not> (task_status (tasks (state (run_task cfg h i m)) ! i) = TaskFailed \<and>
               \<not> autonomousMode cfg)"
    using assms(2) by simp
  show ?thesis by (simp only: task_loop_step if_not_P[OF c] if_not_P[OF d])
qed

lemma task_loop_stops:
  assumes "real_of_int (stepsExecuted (state m)) < maxSteps (state m)"
    and "task_status (tasks (state (run_task cfg h i m)) ! i) = TaskFailed"
    and "\<not> autonomousMode cfg"
  shows "tasks (state (task_loop cfg h (i # rest) m)) = tasks (state (run_task cfg h i m))"
proof -
  have c: "\<not> real_of_int (stepsExecuted (state m)) \<ge> maxSteps (state m)" using assms(1) by simp
  have d: "task_status (tasks (state (run_task cfg h i m)) ! i) = TaskFailed \<and>
               \<not> autonomousMode cfg"
    using assms(2,3) by simp
  show ?thesis by (simp only: task_loop_step if_not_P[OF c] if_P[OF d]) simp
qed

lemma run_task_one_attempt:
  assumes "0 \<le> maxRetries cfg" and "exec_result (executor h i 0) = Inr t"
    and "reflectionEnabled cfg" and "reflectResponse h i 0 = Inr response"
    and "\<not> shouldRetry (verdict_of h response)" and "i < length (tasks (state m))"
  shows "stepsExecuted (state (run_task cfg h i m)) = stepsExecuted (state m) + 1"
    and "task_status (tasks (state (run_task cfg h i m)) ! i) =
           (if success (verdict_of h response) then TaskDone else TaskFailed)"
proof -
  have le: "real 0 \<le> maxRetries cfg" using assms(1) by simp
  have nr: "\<not> (shouldRetry (verdict_of h response) \<and> real 0 < maxRetries cfg)"
    using assms(5) by simp
  have len: "i < length (tasks (state (start_task i m)))" using assms(6) by simp
  obtain m' where rl: "retry_loop cfg h i 0 [] (start_task i m) = (t, m')"
    and k: "keeps 1 i (start_task i m) m'"
    and st: "stepsExecuted (state m') = stepsExecuted (state (start_task i m)) + 1"
    and ts: "task_status (tasks (state m') ! i) =
               (if success (verdict_of h response) then TaskDone else TaskFailed)"
    using retry_loop_settles[OF le assms(2,3,4) nr len] by blast
  have len': "i < length (tasks (state m'))" using k len by (simp add: keeps_def)
  have run: "run_task cfg h i m = complete_task h i t m'"
    using rl by (simp add: run_task_def)
  show "stepsExecuted (state (run_task cfg h i m)) = stepsExecuted (state m) + 1"
    unfolding run using st by simp
  show "task_status (tasks (state (run_task cfg h i m)) ! i) =
           (if success (verdict_of h response) then TaskDone else TaskFailed)"
    unfolding run using ts len' by simp
qed

lemma run_task_two_attempts:
  assumes "1 \<le> maxRetries cfg" and "reflectionEnabled cfg"
    and "exec_result (executor h i 0) = Inr t0" and "reflectResponse h i 0 = Inr r0"
    and "shouldRetry (verdict_of h r0)"
    and "exec_result (executor h i 1) = Inr t1" and "reflectResponse h i 1 = Inr r1"
    and "\<not> shouldRetry (verdict_of h r1)" and "i < length (tasks (state m))"
  shows "stepsExecuted (state (run_task cfg h i m)) = stepsExecuted (state m) + 2"
    and "task_status (tasks (state (run_task cfg h i m)) ! i) =
           (if success (verdict_of h r1) then TaskDone else TaskFailed)"
proof -
  have lt: "real 0 < maxRetries cfg" using assms(1) by simp
  have le1: "real (0 + 1) \<le> maxRetries cfg" using assms(1) by simp
  have e1: "exec_result (executor h i (0 + 1)) = Inr t1" using assms(6) by simp
  have f1: "reflectResponse h i (0 + 1) = Inr r1" using assms(7) by simp
  have nr: "\<not> (shouldRetry (verdict_of h r1) \<and> real (0 + 1) < maxRetries cfg)"
    using assms(8) by simp
  have len: "i < length (tasks (state (start_task i m)))" using assms(9) by simp
  obtain ma where rl0: "retry_loop cfg h i 0 [] (start_task i m) = retry_loop cfg h i (0 + 1) t0 ma"
    and ka: "keeps 1 i (start_task i m) ma"
    and sa: "stepsExecuted (state ma) = stepsExecuted (state (start_task i m)) + 1"
    using retry_loop_retries[OF lt assms(3) assms(2) assms(4) assms(5)] by blast
  have lena: "i < length (tasks (state ma))" using ka len by (simp add: keeps_def)
  obtain mb where rl1: "retry_loop cfg h i (0 + 1) t0 ma = (t1, mb)"
    and kb: "keeps 1 i ma mb"
    and sb: "stepsExecuted (state mb) = stepsExecuted (state ma) + 1"
    and ts: "task_status (tasks (state mb) ! i) =
               (if success (verdict_of h r1) then TaskDone else TaskFailed)"
    using retry_loop_settles[OF le1 e1 assms(2) f1 nr lena] by blast
  have lenb: "i < length (tasks (state mb))" using kb lena by (simp add: keeps_def)
  have run: "run_task cfg h i m = complete_task h i t1 mb"
    using rl0 rl1 by (simp add: run_task_def)
  show "stepsExecuted (state (run_task cfg h i m)) = stepsExecuted (state m) + 2"
    unfolding run using sa sb by simp
  show "task_status (tasks (state (run_task cfg h i m)) ! i) =
           (if success (verdict_of h r1) then TaskDone else TaskFailed)"
    unfolding run using ts lenb by simp
qed

lemma run_task_frame:
  "maxSteps (state (run_task cfg h i m)) = maxSteps (state m)"
  "length (tasks (state (run_task cfg h i m))) = length (tasks (state m))"
  "j \<noteq> i \<Longrightarrow> tasks (state (run_task cfg h i m)) ! j = tasks (state m) ! j"
  using keeps_run_task[of cfg i m h] by (simp_all add: keeps_def)

subsection \<open>The fixture runs\<close>

lemma plan_tasks_three:
  "planTasks three_step_plan =
     [\<lparr>task_id = 1, description = ''first'', task_status = TaskPending, result = None,
        reflection = None\<rparr>,
      \<lparr>task_id = 2, description = ''second'', task_status = TaskPending, result = None,
        reflection = None\<rparr>,
      \<lparr>task_id = 3, description = ''third'', task_status = TaskPending, result = None,
        reflection = None\<rparr>]"
  by (simp add: planTasks_def three_step_plan_def LF_def is_digit_def strip_marker_def trim_def
      is_space_def)

lemma brace_match_json: "brace_match (json_verdict s a r c) = Some (json_verdict s a r c)"
  by (simp add: brace_match_def json_verdict_def Let_def)

lemma json_distinct: "json_ok \<noteq> json_retry" "json_ok \<noteq> json_fail" "json_retry \<noteq> json_fail"
  by (simp_all add: json_ok_def json_retry_def json_fail_def json_verdict_def)

lemma demo_verdicts:
  assumes "JSON_parse h = demo_parse"
  shows "verdict_of h json_ok =
     \<lparr>success = True, analysis = ''fine'', shouldRetry = False, adjustments = None, confidence = 90\<rparr>"
    and "verdict_of h json_retry =
     \<lparr>success = True, analysis = ''unsure'', shouldRetry = True, adjustments = None, confidence = 40\<rparr>"
    and "verdict_of h json_fail =
     \<lparr>success = False, analysis = ''wrong'', shouldRetry = False, adjustments = None, confidence = 80\<rparr>"
    and "verdict_of h (''Verdict: '' @ json_ok) =
     \<lparr>success = True, analysis = ''fine'', shouldRetry = False, adjustments = None, confidence = 90\<rparr>"
proof -
  have b: "brace_match (''Verdict: '' @ json_ok) = Some json_ok"
    by (simp add: brace_match_def json_ok_def json_verdict_def Let_def)
  show "verdict_of h json_ok =
     \<lparr>success = True, analysis = ''fine'', shouldRetry = False, adjustments = None, confidence = 90\<rparr>"
    by (simp add: verdict_of_def assms demo_parse_def json_ok_def brace_match_json)
  show "verdict_of h json_retry =
     \<lparr>success = True, analysis = ''unsure'', shouldRetry = True, adjustments = None, confidence = 40\<rparr>"
    using json_distinct
    by (simp add: verdict_of_def assms demo_parse_def json_retry_def brace_match_json
        json_ok_def)
  show "verdict_of h json_fail =
     \<lparr>success = False, analysis = ''wrong'', shouldRetry = False, adjustments = None, confidence = 80\<rparr>"
    using json_distinct
    by (simp add: verdict_of_def assms demo_parse_def json_fail_def brace_match_json
        json_ok_def json_retry_def)
  show "verdict_of h (''Verdict: '' @ json_ok) =
     \<lparr>success = True, analysis = ''fine'', shouldRetry = False, adjustments = None, confidence = 90\<rparr>"
    unfolding verdict_of_def b by (simp add: assms demo_parse_def)
qed

lemma three_indices: "[0..<length (planTasks three_step_plan)] = [0, 1, 2]"
  by (simp add: plan_tasks_three upt_rec)

lemma list_all_map_eq: "list_all (\<lambda>s. s = c) (map f xs) = list_all (\<lambda>t. f t = c) xs"
  by (induction xs) simp_all

lemma list_ex_map_eq: "list_ex (\<lambda>s. s = c) (map f xs) = list_ex (\<lambda>t. f t = c) xs"
  by (induction xs) simp_all

lemma finish_status_statuses:
  "status (state (finish h m)) =
     (if list_all (\<lambda>s. s = TaskDone) (map task_status (tasks (state m))) then Completed
      else if list_ex (\<lambda>s. s = TaskFailed) (map task_status (tasks (state m))) then Failed
      else status (state m))"
  unfolding list_all_map_eq list_ex_map_eq by (rule finish_status)

lemma three_statuses:
  assumes "length xs = 3"
  shows "map task_status xs = [task_status (xs ! 0), task_status (xs ! 1), task_status (xs ! 2)]"
proof -
  obtain a b c where "xs = [a, b, c]"
    using assms by (auto simp: length_Suc_conv numeral_3_eq_3)
  then show ?thesis by simp
qed

lemma default_config_facts:
  "cfg_maxSteps (finalConfig empty_config) = 50" "maxRetries (finalConfig empty_config) = 3"
  "reflectionEnabled (finalConfig empty_config)" "\<not> autonomousMode (finalConfig empty_config)"
  "cfg_maxSteps (finalConfig one_step_budget) = 1" "maxRetries (finalConfig one_step_budget) = 3"
  "reflectionEnabled (finalConfig one_step_budget)"
  "\<not> autonomousMode (finalConfig one_step_budget)"
  "cfg_maxSteps (finalConfig no_budget) = 0" "maxRetries (finalConfig no_budget) = 3"
  by (simp_all add: finalConfig_def empty_config_def one_step_budget_def no_budget_def
      DEFAULT_CONFIG_def)

lemma eager_run_facts:
  "status (state (runAgent eager_host ''g'' one_step_budget None None)) = Paused \<and>
   stepsExecuted (state (runAgent eager_host ''g'' one_step_budget None None)) = 2 \<and>
   maxSteps (state (runAgent eager_host ''g'' one_step_budget None None)) = 1"
proof -
  let ?h = eager_host
  let ?cfg = "finalConfig one_step_budget"
  have plan: "planResponse ?h = Inr three_step_plan"
    by (simp add: eager_host_def steady_host_def)
  obtain m2 where pm: "planned_machine ?h ''g'' one_step_budget None None three_step_plan m2"
    using runAgent_shape[OF plan] by blast
  have t2: "tasks (state m2) = planTasks three_step_plan" and s2: "stepsExecuted (state m2) = 0"
    and x2: "maxSteps (state m2) = 1"
    using pm by (simp_all add: planned_machine_def default_config_facts)
  have run: "runAgent ?h ''g'' one_step_budget None None =
      emit (finish ?h (task_loop ?cfg ?h [0, 1, 2] m2))"
    using pm by (simp add: planned_machine_def three_indices)
  have len2: "length (tasks (state m2)) = 3" by (simp add: t2 plan_tasks_three)
  have jp: "JSON_parse ?h = demo_parse" by (simp add: eager_host_def steady_host_def)
  let ?m3 = "run_task ?cfg ?h 0 m2"
  have a0: "exec_result (executor ?h 0 0) = Inr ''ok''" "exec_result (executor ?h 0 1) = Inr ''ok''"
    by (simp_all add: eager_host_def steady_host_def exec_result_def)
  have r0: "reflectResponse ?h 0 0 = Inr json_retry" "reflectResponse ?h 0 1 = Inr json_ok"
    by (simp_all add: eager_host_def steady_host_def)
  have v0: "shouldRetry (verdict_of ?h json_retry)" "\<not> shouldRetry (verdict_of ?h json_ok)"
    "success (verdict_of ?h json_ok)"
    by (simp_all add: demo_verdicts[OF jp])
  have R: "1 \<le> maxRetries ?cfg" by (simp add: default_config_facts)
  have i0: "0 < length (tasks (state m2))" using len2 by simp
  have s3: "stepsExecuted (state ?m3) = stepsExecuted (state m2) + 2"
    by (rule run_task_two_attempts(1)[OF R default_config_facts(7) a0(1) r0(1) v0(1) a0(2) r0(2)
          v0(2) i0])
  have d3: "task_status (tasks (state ?m3) ! 0) =
      (if success (verdict_of ?h json_ok) then TaskDone else TaskFailed)"
    by (rule run_task_two_attempts(2)[OF R default_config_facts(7) a0(1) r0(1) v0(1) a0(2) r0(2)
          v0(2) i0])
  have d3': "task_status (tasks (state ?m3) ! 0) = TaskDone" using d3 v0(3) by simp
  have x3: "maxSteps (state ?m3) = 1" using x2 by (simp add: run_task_frame)
  have len3: "length (tasks (state ?m3)) = 3" using len2 by (simp add: run_task_frame)
  have o3: "task_status (tasks (state ?m3) ! 1) = TaskPending"
    "task_status (tasks (state ?m3) ! 2) = TaskPending"
    by (simp_all add: run_task_frame t2 plan_tasks_three)
  have st3: "map task_status (tasks (state ?m3)) = [TaskDone, TaskPending, TaskPending]"
    using three_statuses[OF len3] d3' o3 by simp
  have c0: "stepsExecuted (state m2) < maxSteps (state m2)" using s2 x2 by simp
  have nf: "task_status (tasks (state ?m3) ! 0) \<noteq> TaskFailed" using d3' by simp
  have l0: "task_loop ?cfg ?h [0, 1, 2] m2 = task_loop ?cfg ?h [1, 2] ?m3"
    by (rule task_loop_continues[OF c0 nf])
  have over: "maxSteps (state ?m3) \<le> stepsExecuted (state ?m3)" using s3 s2 x3 by simp
  have l1: "task_loop ?cfg ?h [1, 2] ?m3 =
      set_status Paused
        (log_entry LogWarning
           (''Maximum steps ('' @ show_number ?h (maxSteps (state ?m3)) @
            '') reached. Stopping execution.'') ?m3)"
    by (rule task_loop_pauses[OF over])
  show ?thesis
    unfolding run l0 l1 using s3 s2 x3 st3 by (simp add: finish_status_statuses)
qed

lemma failing_run_facts:
  "length (tasks (state (runAgent failing_host ''g'' empty_config None None))) = 3 \<and>
   task_status (tasks (state (runAgent failing_host ''g'' empty_config None None)) ! 1) =
     TaskFailed"
proof -
  let ?h = failing_host
  let ?cfg = "finalConfig empty_config"
  have plan: "planResponse ?h = Inr three_step_plan"
    by (simp add: failing_host_def steady_host_def)
  obtain m2 where pm: "planned_machine ?h ''g'' empty_config None None three_step_plan m2"
    using runAgent_shape[OF plan] by blast
  have t2: "tasks (state m2) = planTasks three_step_plan" and s2: "stepsExecuted (state m2) = 0"
    and x2: "maxSteps (state m2) = 50"
    using pm by (simp_all add: planned_machine_def default_config_facts)
  have run: "runAgent ?h ''g'' empty_config None None =
      emit (finish ?h (task_loop ?cfg ?h [0, 1, 2] m2))"
    using pm by (simp add: planned_machine_def three_indices)
  have len2: "length (tasks (state m2)) = 3" by (simp add: t2 plan_tasks_three)
  have jp: "JSON_parse ?h = demo_parse" by (simp add: failing_host_def steady_host_def)
  have R: "0 \<le> maxRetries ?cfg" by (simp add: default_config_facts)
  let ?m3 = "run_task ?cfg ?h 0 m2"
  let ?m4 = "run_task ?cfg ?h 1 ?m3"
  have e: "exec_result (executor ?h 0 0) = Inr ''ok''" "exec_result (executor ?h 1 0) = Inr ''ok''"
    by (simp_all add: failing_host_def steady_host_def exec_result_def)
  have r: "reflectResponse ?h 0 0 = Inr json_ok" "reflectResponse ?h 1 0 = Inr json_fail"
    by (simp_all add: failing_host_def steady_host_def)
  have v: "\<not> shouldRetry (verdict_of ?h json_ok)" "success (verdict_of ?h json_ok)"
    "\<not> shouldRetry (verdict_of ?h json_fail)" "\<not> success (verdict_of ?h json_fail)"
    by (simp_all add: demo_verdicts[OF jp])
  have i0: "0 < length (tasks (state m2))" using len2 by simp
  have s3: "stepsExecuted (state ?m3) = stepsExecuted (state m2) + 1"
    by (rule run_task_one_attempt(1)[OF R e(1) default_config_facts(3) r(1) v(1) i0])
  have d3: "task_status (tasks (state ?m3) ! 0) =
      (if success (verdict_of ?h json_ok) then TaskDone else TaskFailed)"
    by (rule run_task_one_attempt(2)[OF R e(1) default_config_facts(3) r(1) v(1) i0])
  have nf: "task_status (tasks (state ?m3) ! 0) \<noteq> TaskFailed" using d3 v(2) by simp
  have c0: "stepsExecuted (state m2) < maxSteps (state m2)" using s2 x2 by simp
  have l0: "task_loop ?cfg ?h [0, 1, 2] m2 = task_loop ?cfg ?h [1, 2] ?m3"
    by (rule task_loop_continues[OF c0 nf])
  have len3: "length (tasks (state ?m3)) = 3" using len2 by (simp add: run_task_frame)
  have i1: "1 < length (tasks (state ?m3))" using len3 by simp
  have d4: "task_status (tasks (state ?m4) ! 1) =
      (if success (verdict_of ?h json_fail) then TaskDone else TaskFailed)"
    by (rule run_task_one_attempt(2)[OF R e(2) default_config_facts(3) r(2) v(3) i1])
  have f4: "task_status (tasks (state ?m4) ! 1) = TaskFailed" using d4 v(4) by simp
  have c1: "stepsExecuted (state ?m3) < maxSteps (state ?m3)"
    using s3 s2 x2 by (simp add: run_task_frame)
  have l1: "tasks (state (task_loop ?cfg ?h [1, 2] ?m3)) = tasks (state ?m4)"
    by (rule task_loop_stops[OF c1 f4 default_config_facts(4)])
  have len4: "length (tasks (state ?m4)) = 3" using len3 by (simp add: run_task_frame)
  have "tasks (state (runAgent ?h ''g'' empty_config None None)) = tasks (state ?m4)"
    unfolding run l0 using l1 by simp
  then show ?thesis using len4 f4 by simp
qed

lemma paused_job_facts:
  "status (state (job_run steady_host paused_job None)) = Paused"
proof -
  let ?h = steady_host
  let ?cfg = "finalConfig no_budget"
  have plan: "planResponse ?h = Inr three_step_plan" by (simp add: steady_host_def)
  obtain m2 where pm: "planned_machine ?h ''g'' no_budget (Some ''a1'') None three_step_plan m2"
    using runAgent_shape[OF plan] by blast
  have t2: "tasks (state m2) = planTasks three_step_plan" and s2: "stepsExecuted (state m2) = 0"
    and x2: "maxSteps (state m2) = 0"
    using pm by (simp_all add: planned_machine_def default_config_facts)
  have run: "runAgent ?h ''g'' no_budget (Some ''a1'') None =
      emit (finish ?h (task_loop ?cfg ?h [0, 1, 2] m2))"
    using pm by (simp add: planned_machine_def three_indices)
  have over: "maxSteps (state m2) \<le> stepsExecuted (state m2)" using s2 x2 by simp
  have l: "task_loop ?cfg ?h [0, 1, 2] m2 =
      set_status Paused
        (log_entry LogWarning
           (''Maximum steps ('' @ show_number ?h (maxSteps (state m2)) @
            '') reached. Stopping execution.'') m2)"
    by (rule task_loop_pauses[OF over])
  have "status (state (runAgent ?h ''g'' no_budget (Some ''a1'') None)) = Paused"
    unfolding run l by (simp add: finish_status_statuses t2 plan_tasks_three)
  then show ?thesis by (simp add: job_run_def paused_job_def)
qed

lemma run_task_left_running:
  assumes "0 < maxRetries cfg" and "maxRetries cfg < 1" and "reflectionEnabled cfg"
    and "exec_result (executor h i 0) = Inr t0" and "reflectResponse h i 0 = Inr r0"
    and "shouldRetry (verdict_of h r0)" and "i < length (tasks (state m))"
  shows "stepsExecuted (state (run_task cfg h i m)) = stepsExecuted (state m) + 1"
    and "task_status (tasks (state (run_task cfg h i m)) ! i) = TaskRunning"
proof -
  have lt: "real 0 < maxRetries cfg" using assms(1) by simp
  have out: "\<not> real (0 + 1) \<le> maxRetries cfg" using assms(2) by simp
  have len: "i < length (tasks (state (start_task i m)))" using assms(7) by simp
  obtain ma where rl0: "retry_loop cfg h i 0 [] (start_task i m) = retry_loop cfg h i (0 + 1) t0 ma"
    and ka: "keeps 1 i (start_task i m) ma"
    and sa: "stepsExecuted (state ma) = stepsExecuted (state (start_task i m)) + 1"
    and ta: "task_status (tasks (state ma) ! i) =
               task_status (tasks (state (start_task i m)) ! i)"
    using retry_loop_retries[OF lt assms(4) assms(3) assms(5) assms(6)] by blast
  have lena: "i < length (tasks (state ma))" using ka len by (simp add: keeps_def)
  have rl1: "retry_loop cfg h i (0 + 1) t0 ma = (t0, ma)"
    using out by (rule retry_loop_exit)
  have run: "run_task cfg h i m = complete_task h i t0 ma"
    using rl0 rl1 by (simp add: run_task_def)
  show "stepsExecuted (state (run_task cfg h i m)) = stepsExecuted (state m) + 1"
    unfolding run using sa by simp
  have "task_status (tasks (state ma) ! i) = TaskRunning"
    using ta assms(7) by simp
  then show "task_status (tasks (state (run_task cfg h i m)) ! i) = TaskRunning"
    unfolding run using lena by simp
qed

lemma fractional_config_facts:
  "cfg_maxSteps (finalConfig half_step_budget) = 0.5"
  "maxRetries (finalConfig half_step_budget) = 0"
  "reflectionEnabled (finalConfig half_step_budget)"
  "cfg_maxSteps (finalConfig half_retry) = 50" "maxRetries (finalConfig half_retry) = 0.5"
  "reflectionEnabled (finalConfig half_retry)" "\<not> autonomousMode (finalConfig half_retry)"
  by (simp_all add: finalConfig_def empty_config_def half_step_budget_def half_retry_def
      DEFAULT_CONFIG_def)

lemma half_step_budget_run_facts:
  "status (state (runAgent steady_host ''g'' half_step_budget None None)) = Paused \<and>
   stepsExecuted (state (runAgent steady_host ''g'' half_step_budget None None)) = 1 \<and>
   maxSteps (state (runAgent steady_host ''g'' half_step_budget None None)) = 0.5 \<and>
   maxRetries (finalConfig half_step_budget) = 0"
proof -
  let ?h = steady_host
  let ?cfg = "finalConfig half_step_budget"
  have plan: "planResponse ?h = Inr three_step_plan" by (simp add: steady_host_def)
  obtain m2 where pm: "planned_machine ?h ''g'' half_step_budget None None three_step_plan m2"
    using runAgent_shape[OF plan] by blast
  have t2: "tasks (state m2) = planTasks three_step_plan" and s2: "stepsExecuted (state m2) = 0"
    and x2: "maxSteps (state m2) = 0.5"
    using pm by (simp_all add: planned_machine_def fractional_config_facts)
  have run: "runAgent ?h ''g'' half_step_budget None None =
      emit (finish ?h (task_loop ?cfg ?h [0, 1, 2] m2))"
    using pm by (simp add: planned_machine_def three_indices)
  have len2: "length (tasks (state m2)) = 3" by (simp add: t2 plan_tasks_three)
  have jp: "JSON_parse ?h = demo_parse" by (simp add: steady_host_def)
  let ?m3 = "run_task ?cfg ?h 0 m2"
  have e: "exec_result (executor ?h 0 0) = Inr ''ok''"
    by (simp add: steady_host_def exec_result_def)
  have r: "reflectResponse ?h 0 0 = Inr (''Verdict: '' @ json_ok)"
    by (simp add: steady_host_def)
  have v: "\<not> shouldRetry (verdict_of ?h (''Verdict: '' @ json_ok))"
    "success (verdict_of ?h (''Verdict: '' @ json_ok))"
    unfolding demo_verdicts(4)[OF jp] by simp_all
  have R: "0 \<le> maxRetries ?cfg" by (simp add: fractional_config_facts)
  have i0: "0 < length (tasks (state m2))" using len2 by simp
  have s3: "stepsExecuted (state ?m3) = stepsExecuted (state m2) + 1"
    by (rule run_task_one_attempt(1)[OF R e fractional_config_facts(3) r v(1) i0])
  have d3: "task_status (tasks (state ?m3) ! 0) =
      (if success (verdict_of ?h (''Verdict: '' @ json_ok)) then TaskDone else TaskFailed)"
    by (rule run_task_one_attempt(2)[OF R e fractional_config_facts(3) r v(1) i0])
  have d3': "task_status (tasks (state ?m3) ! 0) = TaskDone" using d3 v(2) by simp
  have x3: "maxSteps (state ?m3) = 0.5" using x2 by (simp add: run_task_frame)
  have len3: "length (tasks (state ?m3)) = 3" using len2 by (simp add: run_task_frame)
  have o3: "task_status (tasks (state ?m3) ! 1) = TaskPending"
    "task_status (tasks (state ?m3) ! 2) = TaskPending"
    by (simp_all add: run_task_frame t2 plan_tasks_three)
  have st3: "map task_status (tasks (state ?m3)) = [TaskDone, TaskPending, TaskPending]"
    using three_statuses[OF len3] d3' o3 by simp
  have c0: "real_of_int (stepsExecuted (state m2)) < maxSteps (state m2)" using s2 x2 by simp
  have nf: "task_status (tasks (state ?m3) ! 0) \<noteq> TaskFailed" using d3' by simp
  have l0: "task_loop ?cfg ?h [0, 1, 2] m2 = task_loop ?cfg ?h [1, 2] ?m3"
    by (rule task_loop_continues[OF c0 nf])
  have over: "maxSteps (state ?m3) \<le> real_of_int (stepsExecuted (state ?m3))"
    using s3 s2 x3 by simp
  have l1: "task_loop ?cfg ?h [1, 2] ?m3 =
      set_status Paused
        (log_entry LogWarning
           (''Maximum steps ('' @ show_number ?h (maxSteps (state ?m3)) @
            '') reached. Stopping execution.'') ?m3)"
    by (rule task_loop_pauses[OF over])
  show ?thesis
    unfolding run l0 l1 using s3 s2 x3 st3
    by (simp add: finish_status_statuses fractional_config_facts)
qed

lemma fractional_retries_run_facts:
  "map task_status (tasks (state (runAgent wavering_host ''g'' half_retry None None))) =
     [TaskRunning, TaskFailed, TaskPending] \<and>
   status (state (runAgent wavering_host ''g'' half_retry None None)) = Failed \<and>
   \<not> autonomousMode (finalConfig half_retry) \<and> maxRetries (finalConfig half_retry) = 0.5"
proof -
  let ?h = wavering_host
  let ?cfg = "finalConfig half_retry"
  have plan: "planResponse ?h = Inr three_step_plan"
    by (simp add: wavering_host_def steady_host_def)
  obtain m2 where pm: "planned_machine ?h ''g'' half_retry None None three_step_plan m2"
    using runAgent_shape[OF plan] by blast
  have t2: "tasks (state m2) = planTasks three_step_plan" and s2: "stepsExecuted (state m2) = 0"
    and x2: "maxSteps (state m2) = 50"
    using pm by (simp_all add: planned_machine_def fractional_config_facts)
  have run: "runAgent ?h ''g'' half_retry None None =
      emit (finish ?h (task_loop ?cfg ?h [0, 1, 2] m2))"
    using pm by (simp add: planned_machine_def three_indices)
  have len2: "length (tasks (state m2)) = 3" by (simp add: t2 plan_tasks_three)
  have jp: "JSON_parse ?h = demo_parse" by (simp add: wavering_host_def steady_host_def)
  have R0: "0 < maxRetries ?cfg" and R1: "maxRetries ?cfg < 1" and R: "0 \<le> maxRetries ?cfg"
    by (simp_all add: fractional_config_facts)
  let ?m3 = "run_task ?cfg ?h 0 m2"
  let ?m4 = "run_task ?cfg ?h 1 ?m3"
  have e: "exec_result (executor ?h 0 0) = Inr ''ok''" "exec_result (executor ?h 1 0) = Inr ''ok''"
    by (simp_all add: wavering_host_def steady_host_def exec_result_def)
  have r: "reflectResponse ?h 0 0 = Inr json_retry" "reflectResponse ?h 1 0 = Inr json_fail"
    by (simp_all add: wavering_host_def steady_host_def)
  have v: "shouldRetry (verdict_of ?h json_retry)"
    "\<not> shouldRetry (verdict_of ?h json_fail)" "\<not> success (verdict_of ?h json_fail)"
    by (simp_all add: demo_verdicts[OF jp])
  have i0: "0 < length (tasks (state m2))" using len2 by simp
  have s3: "stepsExecuted (state ?m3) = stepsExecuted (state m2) + 1"
    by (rule run_task_left_running(1)[OF R0 R1 fractional_config_facts(6) e(1) r(1) v(1) i0])
  have d3: "task_status (tasks (state ?m3) ! 0) = TaskRunning"
    by (rule run_task_left_running(2)[OF R0 R1 fractional_config_facts(6) e(1) r(1) v(1) i0])
  have nf: "task_status (tasks (state ?m3) ! 0) \<noteq> TaskFailed" using d3 by simp
  have c0: "real_of_int (stepsExecuted (state m2)) < maxSteps (state m2)" using s2 x2 by simp
  have l0: "task_loop ?cfg ?h [0, 1, 2] m2 = task_loop ?cfg ?h [1, 2] ?m3"
    by (rule task_loop_continues[OF c0 nf])
  have len3: "length (tasks (state ?m3)) = 3" using len2 by (simp add: run_task_frame)
  have i1: "1 < length (tasks (state ?m3))" using len3 by simp
  have d4: "task_status (tasks (state ?m4) ! 1) =
      (if success (verdict_of ?h json_fail) then TaskDone else TaskFailed)"
    by (rule run_task_one_attempt(2)[OF R e(2) fractional_config_facts(6) r(2) v(2) i1])
  have f4: "task_status (tasks (state ?m4) ! 1) = TaskFailed" using d4 v(3) by simp
  have c1: "real_of_int (stepsExecuted (state ?m3)) < maxSteps (state ?m3)"
    using s3 s2 x2 by (simp add: run_task_frame)
  have l1: "tasks (state (task_loop ?cfg ?h [1, 2] ?m3)) = tasks (state ?m4)"
    by (rule task_loop_stops[OF c1 f4 fractional_config_facts(7)])
  have len4: "length (tasks (state ?m4)) = 3" using len3 by (simp add: run_task_frame)
  have ts: "tasks (state (runAgent ?h ''g'' half_retry None None)) = tasks (state ?m4)"
    unfolding run l0 using l1 by simp
  have o0: "task_status (tasks (state ?m4) ! 0) = TaskRunning"
    using d3 by (simp add: run_task_frame)
  have o2: "task_status (tasks (state ?m4) ! 2) = TaskPending"
    by (simp add: run_task_frame t2 plan_tasks_three)
  have m: "map task_status (tasks (state ?m4)) = [TaskRunning, TaskFailed, TaskPending]"
    using three_statuses[OF len4] o0 f4 o2 by simp
  have i: "1 < length (tasks (state (runAgent ?h ''g'' half_retry None None)))"
    unfolding ts using len4 by simp
  have f: "task_status (tasks (state (runAgent ?h ''g'' half_retry None None)) ! 1) = TaskFailed"
    unfolding ts by (rule f4)
  have "status (state (runAgent ?h ''g'' half_retry None None)) = Failed"
    by (rule runAgent_failed_status[OF i f])
  then show ?thesis using m ts by (simp add: fractional_config_facts)
qed

subsection \<open>Step budget\<close>

text \<open>
  C1 as stated fails: the budget is tested only before a task starts, and every attempt of
  the retry loop counts as a step. With a budget of one step, a first task whose reflection
  asks for one retry takes two steps; the loop then pauses before the second task with
  \<open>stepsExecuted = 2\<close> and \<open>maxSteps = 1\<close>.
\<close>

theorem paused_beyond_budget_counterexample:
  "status (state (runAgent eager_host ''g'' one_step_budget None None)) = Paused \<and>
   stepsExecuted (state (runAgent eager_host ''g'' one_step_budget None None)) = 2 \<and>
   maxSteps (state (runAgent eager_host ''g'' one_step_budget None None)) = 1 \<and>
   \<not> stepsExecuted (state (runAgent eager_host ''g'' one_step_budget None None)) \<le>
       maxSteps (state (runAgent eager_host ''g'' one_step_budget None None))"
  using eager_run_facts by simp

text \<open>
  C1, amended. With a budget and a retry limit that are finite numbers and not negative,
  whenever the status is paused, in the returned final state and in every snapshot
  emitted, the budget has been reached and is exceeded by less than the retry limit plus
  one: \<open>maxSteps \<le> stepsExecuted < maxSteps + maxRetries + 1\<close>. When both limits are
  integers this is \<open>maxSteps \<le> stepsExecuted \<le> maxSteps + maxRetries\<close>.
\<close>

theorem paused_within_retry_overshoot:
  assumes "0 \<le> cfg_maxSteps (finalConfig config)" and "0 \<le> maxRetries (finalConfig config)"
  shows "list_all
           (\<lambda>s. status s = Paused \<longrightarrow>
                  maxSteps s \<le> real_of_int (stepsExecuted s) \<and>
                  real_of_int (stepsExecuted s) < maxSteps s + maxRetries (finalConfig config) + 1 \<and>
                  (whole (maxSteps s) \<and> whole (maxRetries (finalConfig config)) \<longrightarrow>
                     real_of_int (stepsExecuted s) \<le> maxSteps s + maxRetries (finalConfig config)))
           (state (runAgent h g config fid mf) # emitted (runAgent h g config fid mf))"
proof (cases "planResponse h")
  case (Inl msg)
  have "list_all (\<lambda>s. status s \<noteq> Paused) (emitted (runAgent h g config fid mf))"
    by (rule runAgent_plan_throws(3)[OF Inl])
  then have "list_all
           (\<lambda>s. status s = Paused \<longrightarrow>
                  maxSteps s \<le> real_of_int (stepsExecuted s) \<and>
                  real_of_int (stepsExecuted s) < maxSteps s + maxRetries (finalConfig config) + 1 \<and>
                  (whole (maxSteps s) \<and> whole (maxRetries (finalConfig config)) \<longrightarrow>
                     real_of_int (stepsExecuted s) \<le> maxSteps s + maxRetries (finalConfig config)))
           (emitted (runAgent h g config fid mf))"
    by (simp add: list_all_iff)
  then show ?thesis using runAgent_plan_throws(1)[OF Inl, of g config fid mf] by simp
next
  case (Inr plan)
  let ?cfg = "finalConfig config"
  obtain m2 where pm: "planned_machine h g config fid mf plan m2"
    using runAgent_shape[OF Inr] by blast
  let ?m' = "task_loop ?cfg h [0..<length (planTasks plan)] m2"
  have q: "quiet m2" using pm by (simp add: planned_machine_def quiet_def list_all_iff)
  have F: "0 \<le> \<lfloor>maxRetries ?cfg\<rfloor>" using assms(2) by simp
  have s0: "stepsExecuted (state m2) = 0" and x0: "maxSteps (state m2) = cfg_maxSteps ?cfg"
    using pm by (simp_all add: planned_machine_def)
  have fr: "0 \<le> real_of_int \<lfloor>maxRetries ?cfg\<rfloor>" using F by (simp only: of_int_0_le_iff)
  have "0 < cfg_maxSteps ?cfg + real_of_int \<lfloor>maxRetries ?cfg\<rfloor> + 1"
    using assms(1) fr by linarith
  then have b: "real_of_int (stepsExecuted (state m2)) <
      maxSteps (state m2) + of_int \<lfloor>maxRetries ?cfg\<rfloor> + 1"
    unfolding s0 x0 by (simp only: of_int_0)
  have L: "maxSteps (state ?m') = maxSteps (state m2) \<and>
     real_of_int (stepsExecuted (state ?m')) <
       maxSteps (state m2) + of_int \<lfloor>maxRetries ?cfg\<rfloor> + 1 \<and>
     list_all (\<lambda>s. status s \<noteq> Paused) (emitted ?m') \<and>
     (status (state ?m') = Paused \<longrightarrow>
        maxSteps (state m2) \<le> real_of_int (stepsExecuted (state ?m')))"
    by (rule task_loop_budget[OF assms(2) q b])
  have run: "runAgent h g config fid mf = emit (finish h ?m')"
    using pm by (simp add: planned_machine_def)
  have fin: "status (state (finish h ?m')) = Paused \<longrightarrow> status (state ?m') = Paused"
    by (simp add: finish_status)
  have up: "real_of_int (stepsExecuted (state ?m')) <
      maxSteps (state ?m') + of_int \<lfloor>maxRetries ?cfg\<rfloor> + 1"
    using L by simp
  have b1: "real_of_int (stepsExecuted (state ?m')) < maxSteps (state ?m') + maxRetries ?cfg + 1"
    by (rule overshoot_bounds(1)[OF up])
  have b2: "whole (maxSteps (state ?m')) \<and> whole (maxRetries ?cfg) \<longrightarrow>
      real_of_int (stepsExecuted (state ?m')) \<le> maxSteps (state ?m') + maxRetries ?cfg"
    by (rule overshoot_bounds(2)[OF up])
  have final: "status (state (finish h ?m')) = Paused \<longrightarrow>
      maxSteps (state (finish h ?m')) \<le> real_of_int (stepsExecuted (state (finish h ?m'))) \<and>
      real_of_int (stepsExecuted (state (finish h ?m'))) <
        maxSteps (state (finish h ?m')) + maxRetries ?cfg + 1 \<and>
      (whole (maxSteps (state (finish h ?m'))) \<and> whole (maxRetries ?cfg) \<longrightarrow>
         real_of_int (stepsExecuted (state (finish h ?m'))) \<le>
           maxSteps (state (finish h ?m')) + maxRetries ?cfg)"
    using fin L b1 b2 by simp
  have old: "list_all
           (\<lambda>s. status s = Paused \<longrightarrow>
                  maxSteps s \<le> real_of_int (stepsExecuted s) \<and>
                  real_of_int (stepsExecuted s) < maxSteps s + maxRetries ?cfg + 1 \<and>
                  (whole (maxSteps s) \<and> whole (maxRetries ?cfg) \<longrightarrow>
                     real_of_int (stepsExecuted s) \<le> maxSteps s + maxRetries ?cfg))
           (emitted ?m')"
    using L by (simp add: list_all_iff)
  show ?thesis
    unfolding run using final old by simp
qed

theorem paused_within_retry_overshoot_witness:
  "0 \<le> cfg_maxSteps (finalConfig one_step_budget) \<and>
   0 \<le> maxRetries (finalConfig one_step_budget) \<and>
   whole (maxSteps (state (runAgent eager_host ''g'' one_step_budget None None))) \<and>
   whole (maxRetries (finalConfig one_step_budget)) \<and>
   status (state (runAgent eager_host ''g'' one_step_budget None None)) = Paused \<and>
   maxSteps (state (runAgent eager_host ''g'' one_step_budget None None)) \<le>
     real_of_int (stepsExecuted (state (runAgent eager_host ''g'' one_step_budget None None))) \<and>
   real_of_int (stepsExecuted (state (runAgent eager_host ''g'' one_step_budget None None))) <
     maxSteps (state (runAgent eager_host ''g'' one_step_budget None None)) +
     maxRetries (finalConfig one_step_budget) + 1 \<and>
   real_of_int (stepsExecuted (state (runAgent eager_host ''g'' one_step_budget None None))) \<le>
     maxSteps (state (runAgent eager_host ''g'' one_step_budget None None)) +
     maxRetries (finalConfig one_step_budget)"
proof -
  have a: "0 \<le> cfg_maxSteps (finalConfig one_step_budget)"
    by (simp add: default_config_facts)
  have b: "0 \<le> maxRetries (finalConfig one_step_budget)"
    by (simp add: default_config_facts)
  have p: "status (state (runAgent eager_host ''g'' one_step_budget None None)) = Paused"
    using eager_run_facts by simp
  have w1: "whole (maxSteps (state (runAgent eager_host ''g'' one_step_budget None None)))"
    using eager_run_facts by (simp add: whole_def)
  have w2: "whole (maxRetries (finalConfig one_step_budget))"
    by (simp add: default_config_facts whole_def)
  show ?thesis
    using paused_within_retry_overshoot[OF a b, of eager_host "''g''" None None] a b p w1 w2
    by simp
qed

subsection \<open>Halting on the first failure\<close>

text \<open>
  C3. In a run that is not autonomous, whatever finite numbers its limits are, if task
  \<open>i\<close> of the returned state has status failed, then the status of the run is failed and
  every later task is still pending. Every earlier task is done when \<open>maxRetries\<close> is an
  integer; when it is not, an earlier task whose last allowed attempt asked for a retry is
  left running, so an earlier task is done or running. In no case is an earlier task
  failed, and the loop over the remaining tasks changes no task it is not visiting. With
  three tasks of which the second fails and the default limits: done, failed, pending.
\<close>

theorem non_autonomous_halts_at_first_failure:
  assumes "\<not> autonomousMode (finalConfig config)"
    and "i < length (tasks (state (runAgent h g config fid mf)))"
    and "task_status (tasks (state (runAgent h g config fid mf)) ! i) = TaskFailed"
  shows "status (state (runAgent h g config fid mf)) = Failed \<and>
         (\<forall>j<i. task_status (tasks (state (runAgent h g config fid mf)) ! j) = TaskDone \<or>
                task_status (tasks (state (runAgent h g config fid mf)) ! j) = TaskRunning) \<and>
         (whole (maxRetries (finalConfig config)) \<longrightarrow>
            (\<forall>j<i. task_status (tasks (state (runAgent h g config fid mf)) ! j) = TaskDone)) \<and>
         (\<forall>j. i < j \<and> j < length (tasks (state (runAgent h g config fid mf))) \<longrightarrow>
              task_status (tasks (state (runAgent h g config fid mf)) ! j) = TaskPending) \<and>
         (\<forall>idxs m j. j \<notin> set idxs \<longrightarrow>
            tasks (state (task_loop (finalConfig config) h idxs m)) ! j = tasks (state m) ! j)"
proof -
  let ?ts = "tasks (state (runAgent h g config fid mf))"
  have "halted (finalConfig config) (length ?ts) (runAgent h g config fid mf)"
    by (rule runAgent_halted[OF assms(1)])
  then have imp: "\<forall>i<length ?ts. task_status (?ts ! i) = TaskFailed \<longrightarrow>
      (\<forall>j<i. (task_status (?ts ! j) = TaskDone \<or> task_status (?ts ! j) = TaskRunning) \<and>
             (whole (maxRetries (finalConfig config)) \<longrightarrow> task_status (?ts ! j) = TaskDone)) \<and>
      (\<forall>j. i < j \<and> j < length ?ts \<longrightarrow> task_status (?ts ! j) = TaskPending)"
    unfolding halted_def by (rule conjunct2)
  have both: "(\<forall>j<i. (task_status (?ts ! j) = TaskDone \<or> task_status (?ts ! j) = TaskRunning) \<and>
             (whole (maxRetries (finalConfig config)) \<longrightarrow> task_status (?ts ! j) = TaskDone)) \<and>
      (\<forall>j. i < j \<and> j < length ?ts \<longrightarrow> task_status (?ts ! j) = TaskPending)"
    by (rule imp[rule_format, OF assms(2) assms(3)])
  have prior: "\<forall>j<i. task_status (?ts ! j) = TaskDone \<or> task_status (?ts ! j) = TaskRunning"
    using both by blast
  have dn: "whole (maxRetries (finalConfig config)) \<longrightarrow>
      (\<forall>j<i. task_status (?ts ! j) = TaskDone)"
    using both by blast
  have later: "\<forall>j. i < j \<and> j < length ?ts \<longrightarrow> task_status (?ts ! j) = TaskPending"
    using both by blast
  have failed: "status (state (runAgent h g config fid mf)) = Failed"
    by (rule runAgent_failed_status[OF assms(2,3)])
  have frame: "\<forall>idxs m j. j \<notin> set idxs \<longrightarrow>
      tasks (state (task_loop (finalConfig config) h idxs m)) ! j = tasks (state m) ! j"
    using task_loop_frame by blast
  show ?thesis
    by (intro conjI failed prior dn later frame)
qed

theorem non_autonomous_halts_at_first_failure_witness:
  "\<not> autonomousMode (finalConfig empty_config) \<and>
   whole (maxRetries (finalConfig empty_config)) \<and>
   map task_status (tasks (state (runAgent failing_host ''g'' empty_config None None))) =
     [TaskDone, TaskFailed, TaskPending] \<and>
   status (state (runAgent failing_host ''g'' empty_config None None)) = Failed"
proof -
  let ?ts = "tasks (state (runAgent failing_host ''g'' empty_config None None))"
  have a: "\<not> autonomousMode (finalConfig empty_config)"
    by (simp add: default_config_facts)
  have w: "whole (maxRetries (finalConfig empty_config))"
    by (simp add: default_config_facts whole_def)
  have len: "length ?ts = 3" and f: "task_status (?ts ! 1) = TaskFailed"
    using failing_run_facts by simp_all
  have i: "1 < length ?ts" using len by simp
  note c = non_autonomous_halts_at_first_failure[OF a i f]
  have d0: "task_status (?ts ! 0) = TaskDone" using c w by simp
  have d2: "task_status (?ts ! 2) = TaskPending" using c len by simp
  have "map task_status ?ts = [TaskDone, TaskFailed, TaskPending]"
    using three_statuses[OF len] d0 f d2 by simp
  then show ?thesis using a w c by simp
qed

subsection \<open>Resumption\<close>

lemma resumeUnfinishedGoals_ids:
  "map run_id (fst (resumeUnfinishedGoals hosts now mf)) =
     map (\<lambda>j. generatedId (hosts j)) [0..<length (getUnfinishedGoals now mf)] \<and>
   list_all autonomous (fst (resumeUnfinishedGoals hosts now mf))"
  using resume_loop_ids[of hosts 0 "getUnfinishedGoals now mf" "[]" mf "[]"]
  by (simp add: resumeUnfinishedGoals_def)

text \<open>
  C4 does not hold of the code in its second half. \<open>resumeUnfinishedGoals\<close> calls
  \<open>runAgent\<close> with \<open>autonomousMode: true\<close> and without the \<open>forcedId\<close> argument, so each
  resumed run carries a newly generated id. For a ledger whose only goal in progress has
  id \<open>g1\<close> and a host whose next generated id is \<open>fresh\<close>, the resumed run is autonomous
  and has id \<open>fresh\<close>.
\<close>

theorem resumed_run_gets_fresh_id:
  "map goal_id (getUnfinishedGoals ''t1'' interrupted_ledger) = [''g1''] \<and>
   map run_id (fst (resumeUnfinishedGoals (\<lambda>k. steady_host) ''t1'' interrupted_ledger)) =
     [''fresh''] \<and>
   list_all autonomous (fst (resumeUnfinishedGoals (\<lambda>k. steady_host) ''t1'' interrupted_ledger))"
proof -
  have g: "map goal_id (getUnfinishedGoals ''t1'' interrupted_ledger) = [''g1'']"
    by (simp add: getUnfinishedGoals_def interrupted_ledger_def addGoal_def loadMemory_def
        saveMemory_def Let_def)
  then have n: "length (getUnfinishedGoals ''t1'' interrupted_ledger) = 1"
    by (metis length_map length_Cons list.size(3) One_nat_def)
  have f: "generatedId steady_host = ''fresh''" by (simp add: steady_host_def)
  show ?thesis
    using resumeUnfinishedGoals_ids[of "\<lambda>k. steady_host" "''t1''" interrupted_ledger] g n f
    by simp
qed

subsection \<open>An executor that always throws\<close>

text \<open>
  C5 does not hold of the code in its second half. When the executor throws on every
  attempt of task \<open>i\<close>, the task ends with status failed, and the \<open>catch\<close> block of the
  last attempt stores the summary \<open>Failed after N attempts: ...\<close> in the result of the
  task; but the assignment \<open>task.result = result\<close> after the loop replaces it by the
  local \<open>result\<close>, still the empty string. The task emits two snapshots, one when it
  starts (with the result it had before) and one when it completes (with the empty
  result), so the summary appears in no snapshot and not in the final state.
\<close>

theorem thrown_task_summary_overwritten:
  assumes "\<forall>k. executor h i k = ExecThrows (msgs k)"
    and "0 \<le> maxRetries cfg" and "i < length (tasks (state m))"
  shows "task_status (tasks (state (run_task cfg h i m)) ! i) = TaskFailed \<and>
         result (tasks (state (snd (retry_loop cfg h i 0 [] (start_task i m)))) ! i) =
           Some (''Failed after '' @ show_nat (nat \<lfloor>maxRetries cfg\<rfloor> + 1) @ '' attempts: '' @
                 msgs (nat \<lfloor>maxRetries cfg\<rfloor>)) \<and>
         result (tasks (state (run_task cfg h i m)) ! i) = Some [] \<and>
         emitted (run_task cfg h i m) =
           emitted m @ [state (start_task i m), state (run_task cfg h i m)] \<and>
         result (tasks (state (start_task i m)) ! i) = result (tasks (state m) ! i)"
proof -
  have "result (tasks (state (start_task i m)) ! i) = result (tasks (state m) ! i)"
    using assms(3) by simp
  then show ?thesis
    using run_task_all_throw[OF assms] by simp
qed

theorem thrown_task_summary_overwritten_witness:
  "(\<forall>k. executor throwing_host 0 k = ExecThrows ''boom'') \<and>
   0 \<le> maxRetries (finalConfig empty_config) \<and>
   task_status (tasks (state (runAgent throwing_host ''g'' empty_config None None)) ! 0) =
     TaskFailed \<and>
   result (tasks (state (runAgent throwing_host ''g'' empty_config None None)) ! 0) = Some []"
proof -
  let ?h = throwing_host
  let ?cfg = "finalConfig empty_config"
  have thr: "\<forall>k. executor ?h 0 k = ExecThrows ((\<lambda>k. ''boom'') k)"
    by (simp add: throwing_host_def steady_host_def)
  have R: "0 \<le> maxRetries ?cfg" by (simp add: default_config_facts)
  have plan: "planResponse ?h = Inr three_step_plan"
    by (simp add: throwing_host_def steady_host_def)
  obtain m2 where pm: "planned_machine ?h ''g'' empty_config None None three_step_plan m2"
    using runAgent_shape[OF plan] by blast
  have t2: "tasks (state m2) = planTasks three_step_plan" and s2: "stepsExecuted (state m2) = 0"
    and x2: "maxSteps (state m2) = 50"
    using pm by (simp_all add: planned_machine_def default_config_facts)
  have run: "runAgent ?h ''g'' empty_config None None =
      emit (finish ?h (task_loop ?cfg ?h [0, 1, 2] m2))"
    using pm by (simp add: planned_machine_def three_indices)
  have i0: "0 < length (tasks (state m2))" by (simp add: t2 plan_tasks_three)
  let ?m3 = "run_task ?cfg ?h 0 m2"
  have c: "task_status (tasks (state ?m3) ! 0) = TaskFailed \<and>
      result (tasks (state ?m3) ! 0) = Some []"
    using thrown_task_summary_overwritten[OF thr R i0] by simp
  have f3: "task_status (tasks (state ?m3) ! 0) = TaskFailed" using c by simp
  have c0: "stepsExecuted (state m2) < maxSteps (state m2)" using s2 x2 by simp
  have l: "tasks (state (task_loop ?cfg ?h [0, 1, 2] m2)) = tasks (state ?m3)"
    by (rule task_loop_stops[OF c0 f3 default_config_facts(4)])
  have "tasks (state (runAgent ?h ''g'' empty_config None None)) = tasks (state ?m3)"
    unfolding run using l by simp
  then show ?thesis using c thr R by simp
qed

subsection \<open>Reflection fallback\<close>



section \<open>Properties of the worker\<close>

lemma foldl_onUpdate_published:
  "published (foldl (onUpdate a) r sls) =
     published r @ map (\<lambda>sl. (redisChannelAgentEvents a, StateEvent a (snd sl))) sls"
  by (induction sls arbitrary: r)
    (simp_all add: onUpdate_def publish_def redis_set_def case_prod_unfold)

lemma published_states_length [simp]:
  "length (published_states observed m) = length (emitted m)"
  by (simp add: published_states_def)

lemma published_states_last:
  assumes "emitted m \<noteq> []"
  shows "last (published_states observed m) = state m"
proof -
  obtain n where n: "length (emitted m) = Suc n"
    using assms by (cases "emitted m") auto
  show ?thesis unfolding published_states_def n by simp
qed

lemma processJob_outcome:
  "published (fst (snd (processJob h observed job r mf))) =
     published r @
     [(redisChannelAgentEvents (agentId job), LogEvent (agentId job) ''info'' ''Job started'')] @
     map (\<lambda>s. (redisChannelAgentEvents (agentId job), StateEvent (agentId job) s))
       (published_states observed (job_run h job mf)) @
     [(redisChannelAgentEvents (agentId job),
       DoneEvent (agentId job)
         (if status (state (job_run h job mf)) = Completed then DoneCompleted else DoneFailed))]"
  "stored (fst (snd (processJob h observed job r mf))) (redisKeyAgentState (agentId job)) =
     Some (state (job_run h job mf))"
  "fst (processJob h observed job r mf) = (agentId job, status (state (job_run h job mf)))"
proof -
  let ?m = "job_run h job mf"
  have z: "map (\<lambda>sl. (redisChannelAgentEvents (agentId job), StateEvent (agentId job) (snd sl)))
             (zip (emitted ?m) (published_states observed ?m)) =
           map (\<lambda>s. (redisChannelAgentEvents (agentId job), StateEvent (agentId job) s))
             (published_states observed ?m)"
  proof -
    have "map snd (zip (emitted ?m) (published_states observed ?m)) =
        published_states observed ?m"
      by (rule map_snd_zip) simp
    then have "map (\<lambda>s. (redisChannelAgentEvents (agentId job), StateEvent (agentId job) s))
        (map snd (zip (emitted ?m) (published_states observed ?m))) =
      map (\<lambda>s. (redisChannelAgentEvents (agentId job), StateEvent (agentId job) s))
        (published_states observed ?m)"
      by (simp only:)
    then show ?thesis by (simp only: map_map comp_def)
  qed
  show "published (fst (snd (processJob h observed job r mf))) =
     published r @
     [(redisChannelAgentEvents (agentId job), LogEvent (agentId job) ''info'' ''Job started'')] @
     map (\<lambda>s. (redisChannelAgentEvents (agentId job), StateEvent (agentId job) s))
       (published_states observed (job_run h job mf)) @
     [(redisChannelAgentEvents (agentId job),
       DoneEvent (agentId job)
         (if status (state (job_run h job mf)) = Completed then DoneCompleted else DoneFailed))]"
    using z
    by (simp add: processJob_def job_run_def Let_def foldl_onUpdate_published publish_def
        redis_set_def)
  show "stored (fst (snd (processJob h observed job r mf))) (redisKeyAgentState (agentId job)) =
     Some (state (job_run h job mf))"
    by (simp add: processJob_def job_run_def Let_def publish_def redis_set_def)
  show "fst (processJob h observed job r mf) = (agentId job, status (state (job_run h job mf)))"
    by (simp add: processJob_def job_run_def Let_def)
qed

text \<open>
  C10. For a job whose run ends with status paused, the worker publishes, after the
  ``Job started'' log event, one state event per \<open>emit\<close> of the run, in the order of
  the \<open>emit\<close> calls, and then a \<open>done\<close> event with status failed as its last message.
  The earlier state events carry whatever the state object held when they were published;
  the last one carries the final state of the run, with status paused, which is also the
  snapshot persisted under the state key and the status the job returns.
\<close>

theorem paused_job_reported_failed:
  assumes "status (state (job_run h job mf)) = Paused"
  shows "published (fst (snd (processJob h observed job r mf))) =
           published r @
           [(redisChannelAgentEvents (agentId job),
             LogEvent (agentId job) ''info'' ''Job started'')] @
           map (\<lambda>s. (redisChannelAgentEvents (agentId job), StateEvent (agentId job) s))
             (published_states observed (job_run h job mf)) @
           [(redisChannelAgentEvents (agentId job), DoneEvent (agentId job) DoneFailed)] \<and>
         length (published_states observed (job_run h job mf)) =
           length (emitted (job_run h job mf)) \<and>
         emitted (job_run h job mf) \<noteq> [] \<and>
         last (published_states observed (job_run h job mf)) = state (job_run h job mf) \<and>
         stored (fst (snd (processJob h observed job r mf))) (redisKeyAgentState (agentId job)) =
           Some (state (job_run h job mf)) \<and>
         fst (processJob h observed job r mf) = (agentId job, Paused)"
proof -
  have l: "emitted (job_run h job mf) \<noteq> []"
    unfolding job_run_def using runAgent_last_emit by blast
  have p: "last (published_states observed (job_run h job mf)) = state (job_run h job mf)"
    by (rule published_states_last[OF l])
  show ?thesis
    using l p assms by (simp add: processJob_outcome)
qed

theorem paused_job_reported_failed_witness:
  "status (state (job_run steady_host paused_job None)) = Paused \<and>
   last (published
     (fst (snd (processJob steady_host (\<lambda>k. state (job_run steady_host paused_job None))
        paused_job empty_redis None)))) =
     (''agent:a1:events'', DoneEvent ''a1'' DoneFailed) \<and>
   map_option status
     (stored
        (fst (snd (processJob steady_host (\<lambda>k. state (job_run steady_host paused_job None))
           paused_job empty_redis None))) ''agent:a1:state'') =
     Some Paused \<and>
   status (last (published_states (\<lambda>k. state (job_run steady_host paused_job None))
     (job_run steady_host paused_job None))) = Paused"
proof -
  have p: "status (state (job_run steady_host paused_job None)) = Paused"
    by (rule paused_job_facts)
  have a: "agentId paused_job = ''a1''" by (simp add: paused_job_def)
  show ?thesis
    using paused_job_reported_failed[OF p,
        of "\<lambda>k. state (job_run steady_host paused_job None)" empty_redis] p a
    by (simp add: redisChannelAgentEvents_def redisKeyAgentState_def)
qed

end
